theory Spec2Isabelle
  imports Main "HOL-Library.Word" "HOL-Library.Signed_Division" "HOL-Library.AList"
begin

unbundle bit_operations_syntax

section \<open>chiprec: recovery of peripheral register accesses from a firmware image\<close>

text \<open>
  The embedding follows \<^verbatim>\<open>chiprec.py\<close>. A firmware image is a Python \<^verbatim>\<open>bytes\<close>
  object, that is a list of 8-bit values; Python integers are unbounded and become
  \<^typ>\<open>int\<close>; file offsets come from \<^verbatim>\<open>range\<close> over non-negative bounds and are
  \<^typ>\<open>nat\<close>. The access kind is the Python string \<^verbatim>\<open>"read"\<close> or \<^verbatim>\<open>"write"\<close>.
\<close>

type_synonym firmware = "8 word list"
type_synonym evidence = "int \<times> string"

datatype error = ValueError | KeyError | AttributeError | TypeError

subsection \<open>Bytes, slices and little-endian decoding\<close>

text \<open>\<^verbatim>\<open>xs[a:b]\<close> for non-negative \<open>a\<close>, \<open>b\<close>: clipped at the end of the sequence, never raising.\<close>

definition slice :: "'a list \<Rightarrow> nat \<Rightarrow> nat \<Rightarrow> 'a list" where
  "slice xs a b = take (b - a) (drop a xs)"

text \<open>\<^verbatim>\<open>int.from_bytes(bs, "little")\<close>; the empty byte string gives 0.\<close>

fun from_bytes_little :: "8 word list \<Rightarrow> int" where
  "from_bytes_little [] = 0"
| "from_bytes_little (b # bs) = uint b + 256 * from_bytes_little bs"

text \<open>\<^verbatim>\<open>int.from_bytes(firmware[o : o + 2], "little")\<close>.\<close>

definition halfword :: "firmware \<Rightarrow> nat \<Rightarrow> int" where
  "halfword firmware fw_offset = from_bytes_little (slice firmware fw_offset (fw_offset + 2))"

subsection \<open>The inner (forward) scan\<close>

text \<open>\<^verbatim>\<open>list.remove(x)\<close>: removes the first occurrence, raises \<^verbatim>\<open>ValueError\<close> when absent.\<close>

definition list_remove :: "int \<Rightarrow> int list \<Rightarrow> error + int list" where
  "list_remove x xs = (if x \<in> set xs then Inr (remove1 x xs) else Inl ValueError)"

text \<open>The address test written four times in the source (lines 62-65, 74-77, 84-87, 94-97).\<close>

definition in_peripheral_window :: "int \<Rightarrow> bool" where
  "in_peripheral_window addr \<longleftrightarrow>
     (0x40000000 \<le> addr \<and> addr < 0x60000000) \<or> (0xA0000000 \<le> addr \<and> addr < 0xE0000000)"

text \<open>
  One iteration of the inner loop, after its two guards: \<open>Next regs adds\<close> carries the
  new \<^verbatim>\<open>registers_containing_addr\<close> and the \<^verbatim>\<open>regs.add\<close> calls of this iteration,
  \<open>Break\<close> is the \<^verbatim>\<open>break\<close> of the final \<^verbatim>\<open>else\<close>, \<open>Raise\<close> an exception.
\<close>

datatype step = Raise error | Break | Next "int list" "evidence list"

definition remove_step :: "int \<Rightarrow> int list \<Rightarrow> step" where
  "remove_step rd2 registers_containing_addr =
     (if rd2 \<in> set registers_containing_addr then
        (case list_remove rd2 registers_containing_addr of
           Inl e \<Rightarrow> Raise e
         | Inr rs \<Rightarrow> Next rs [])
      else Next registers_containing_addr [])"

definition access_step :: "int \<Rightarrow> int list \<Rightarrow> string \<Rightarrow> step" where
  "access_step addr registers_containing_addr access =
     (if in_peripheral_window addr then Next registers_containing_addr [(addr, access)]
      else Next registers_containing_addr [])"

definition scan_instr :: "int \<Rightarrow> int \<Rightarrow> int list \<Rightarrow> step" where
  "scan_instr data instr2 registers_containing_addr =
     (if instr2 AND 0xF800 = 0x6800 then
        (let rd2 = drop_bit 0 instr2 AND 0x07;
             rn2 = drop_bit 3 instr2 AND 0x07
         in if rn2 \<in> set registers_containing_addr then
              access_step (data + push_bit 2 (drop_bit 6 instr2 AND 0x1F))
                registers_containing_addr ''read''
            else remove_step rd2 registers_containing_addr)
      else if instr2 AND 0xF800 = 0x6000 then
        (let rn2 = drop_bit 3 instr2 AND 0x07
         in if rn2 \<in> set registers_containing_addr then
              access_step (data + push_bit 2 (drop_bit 6 instr2 AND 0x1F))
                registers_containing_addr ''write''
            else Next registers_containing_addr [])
      else if instr2 AND 0xF800 = 0x8000 then
        (let rn2 = drop_bit 3 instr2 AND 0x07
         in if rn2 \<in> set registers_containing_addr then
              access_step (data + push_bit 1 (drop_bit 6 instr2 AND 0x1F))
                registers_containing_addr ''write''
            else Next registers_containing_addr [])
      else if instr2 AND 0xF800 = 0x7000 then
        (let rn2 = drop_bit 3 instr2 AND 0x07
         in if rn2 \<in> set registers_containing_addr then
              access_step (data + (drop_bit 6 instr2 AND 0x1F))
                registers_containing_addr ''write''
            else Next registers_containing_addr [])
      else if instr2 AND 0xF800 = 0x4800 then
        remove_step (drop_bit 8 instr2 AND 0x07) registers_containing_addr
      else if instr2 AND 0xFE00 = 0x1A00 then
        remove_step (drop_bit 0 instr2 AND 0x7) registers_containing_addr
      else if instr2 AND 0xF800 = 0x2000 then
        remove_step (drop_bit 8 instr2 AND 0x07) registers_containing_addr
      else Break)"

text \<open>
  The inner loop \<^verbatim>\<open>for fw_offset2 in range(fw_offset + 2, len(firmware), 2)\<close>, from
  \<open>fw_offset2\<close> on. The result is the sequence of \<^verbatim>\<open>regs.add\<close> calls in execution order.
\<close>

function forward_scan :: "firmware \<Rightarrow> int \<Rightarrow> int \<Rightarrow> nat \<Rightarrow> int list \<Rightarrow> error + evidence list" where
  "forward_scan firmware prev_instr data fw_offset2 registers_containing_addr =
     (if length firmware \<le> fw_offset2 then Inr []
      else if registers_containing_addr = [] then Inr []
      else if prev_instr AND 0xE000 = 0xE000 then Inr []
      else
        (case scan_instr data (halfword firmware fw_offset2) registers_containing_addr of
           Raise e \<Rightarrow> Inl e
         | Break \<Rightarrow> Inr []
         | Next rs adds \<Rightarrow>
             (case forward_scan firmware prev_instr data (fw_offset2 + 2) rs of
                Inl e \<Rightarrow> Inl e
              | Inr rest \<Rightarrow> Inr (adds @ rest))))"
  by pat_completeness auto
termination
  by (relation "measure (\<lambda>(firmware, prev_instr, data, fw_offset2, rs). length firmware - fw_offset2)") auto

subsection \<open>The outer scan\<close>

text \<open>Lines 39 and 41: the literal-pool slot of the candidate at \<open>fw_offset\<close>.\<close>

definition data_offset :: "nat \<Rightarrow> int \<Rightarrow> nat" where
  "data_offset fw_offset instr =
     (let rb = push_bit 2 (instr AND 0xFF)
      in nat ((int fw_offset + rb) div 4 * 4 + 4))"

text \<open>Line 42: the value read from the slot.\<close>

definition literal_data :: "firmware \<Rightarrow> nat \<Rightarrow> int \<Rightarrow> int" where
  "literal_data firmware fw_offset instr =
     from_bytes_little
       (slice firmware (data_offset fw_offset instr) (data_offset fw_offset instr + 4))"

text \<open>The body of the outer loop at \<open>fw_offset\<close> (lines 27-116).\<close>

definition scan_candidate :: "firmware \<Rightarrow> nat \<Rightarrow> error + evidence list" where
  "scan_candidate firmware fw_offset =
     (let instr = halfword firmware fw_offset
      in if instr AND 0xF800 \<noteq> 0x4800 then Inr []
         else
           (let prev_instr = from_bytes_little (slice firmware (fw_offset - 2) fw_offset)
            in if prev_instr AND 0xE000 = 0xE000 then Inr []
               else
                 (let rd = drop_bit 8 instr AND 0x07;
                      data = literal_data firmware fw_offset instr
                  in forward_scan firmware prev_instr data (fw_offset + 2) [rd])))"

text \<open>The outer loop \<^verbatim>\<open>for fw_offset in range(2, len(firmware), 2)\<close>, from \<open>fw_offset\<close> on.\<close>

function outer_scan :: "firmware \<Rightarrow> nat \<Rightarrow> error + evidence list" where
  "outer_scan firmware fw_offset =
     (if length firmware \<le> fw_offset then Inr []
      else
        (case scan_candidate firmware fw_offset of
           Inl e \<Rightarrow> Inl e
         | Inr adds \<Rightarrow>
             (case outer_scan firmware (fw_offset + 2) of
                Inl e \<Rightarrow> Inl e
              | Inr rest \<Rightarrow> Inr (adds @ rest))))"
  by pat_completeness auto
termination
  by (relation "measure (\<lambda>(firmware, fw_offset). length firmware - fw_offset)") auto

text \<open>
  \<^verbatim>\<open>regs\<close> is a Python \<^verbatim>\<open>set\<close>, written only through \<^verbatim>\<open>regs.add\<close>: the returned
  value is the set of the added pairs.
\<close>

definition find_used_registers :: "firmware \<Rightarrow> error + evidence set" where
  "find_used_registers firmware =
     (case outer_scan firmware 2 of Inl e \<Rightarrow> Inl e | Inr adds \<Rightarrow> Inr (set adds))"

section \<open>chiprec: matching the evidence against the register catalog\<close>

subsection \<open>The catalog\<close>

text \<open>
  The three tables of \<^verbatim>\<open>SQL_SCHEMA\<close> (\<^verbatim>\<open>chiprec_svd_import.py\<close>), each a list of rows
  in the order the database yields them. Columns that are \<^verbatim>\<open>INTEGER NOT NULL\<close> are
  \<^typ>\<open>int\<close>; \<^verbatim>\<open>device_vendor\<close> may be \<^verbatim>\<open>NULL\<close>. \<^verbatim>\<open>peripheral.device_id\<close> is always
  set by the importer and is modelled as an \<^typ>\<open>int\<close>.
\<close>

record device =
  device_ident :: int
  device_name :: string
  device_vendor :: "string option"
  svd_filename :: string

record peripheral =
  peripheral_ident :: int
  device_id :: int
  peripheral_name :: string
  peripheral_address :: int

record register =
  peripheral_id :: int
  register_name :: string
  register_access :: string
  register_address :: int
  register_size :: int

record database =
  device_table :: "device list"
  peripheral_table :: "peripheral list"
  register_table :: "register list"

text \<open>
  The query of \<^verbatim>\<open>find_devices_by_register\<close> (lines 140-148). SQLite divides two integers
  by truncation, which is \<open>sdiv\<close>. A fetched row \<^verbatim>\<open>dev_id, *attr\<close> is the device id with
  the list \<^verbatim>\<open>[peripheral_name, register_name]\<close>.
\<close>

definition select_registers :: "database \<Rightarrow> int \<Rightarrow> (int \<times> string list) list" where
  "select_registers cursor addr =
     [(device_id p, [peripheral_name p, register_name r]).
        r \<leftarrow> register_table cursor, p \<leftarrow> peripheral_table cursor,
        peripheral_id r = peripheral_ident p,
        register_address r \<le> addr,
        register_address r + 32 > addr,
        register_address r + register_size r sdiv 8 > addr]"

subsection \<open>Dictionaries of lists, with the lists in a store\<close>

text \<open>
  \<^verbatim>\<open>dict_intersection_merge\<close> copies the dictionary but not its values, and extends the
  value lists in place, so the lists are objects in a store: \<open>cells\<close> maps a reference
  to the list it holds, \<open>fresh\<close> is the next unused reference. A hit record
  \<^verbatim>\<open>attr + [access]\<close> is never mutated and stays a value. A dictionary keeps its keys in
  insertion order: assigning an existing key keeps its place (\<open>AList.update\<close>).
\<close>

type_synonym hit = "string list"

record heap =
  cells :: "nat \<Rightarrow> hit list"
  fresh :: nat

type_synonym pydict = "(int \<times> nat) list"

definition alloc :: "heap \<Rightarrow> hit list \<Rightarrow> heap \<times> nat" where
  "alloc h v = (\<lparr>cells = (cells h)(fresh h := v), fresh = Suc (fresh h)\<rparr>, fresh h)"

text \<open>\<^verbatim>\<open>{dev_id: [attr + [access]] for dev_id, *attr in rows}\<close> (line 149), from \<open>d\<close> on.\<close>

fun dict_of_rows :: "heap \<Rightarrow> pydict \<Rightarrow> (int \<times> string list) list \<Rightarrow> string \<Rightarrow> heap \<times> pydict" where
  "dict_of_rows h d [] access = (h, d)"
| "dict_of_rows h d ((dev_id, attr) # rows) access =
     (let (h', r) = alloc h [attr @ [access]]
      in dict_of_rows h' (AList.update dev_id r d) rows access)"

definition find_devices_by_register :: "database \<Rightarrow> heap \<Rightarrow> int \<Rightarrow> string \<Rightarrow> heap \<times> pydict" where
  "find_devices_by_register cursor h addr access =
     dict_of_rows h [] (select_registers cursor addr) access"

text \<open>
  The loop of \<^verbatim>\<open>dict_intersection_merge\<close> over the keys listed beforehand (lines 128-132).
  \<^verbatim>\<open>d1.pop(key)\<close> and the subscripts raise \<^verbatim>\<open>KeyError\<close> on a missing key;
  \<^verbatim>\<open>d1[key] += d2[key]\<close> extends the list object of \<open>d1[key]\<close> in place and stores the
  same object back.
\<close>

fun merge_keys :: "heap \<Rightarrow> pydict \<Rightarrow> pydict \<Rightarrow> int list \<Rightarrow> error + heap \<times> pydict" where
  "merge_keys h d1 d2 [] = Inr (h, d1)"
| "merge_keys h d1 d2 (key # keys) =
     (if key \<notin> fst ` set d2 then
        (case map_of d1 key of
           None \<Rightarrow> Inl KeyError
         | Some r1 \<Rightarrow> merge_keys h (AList.delete key d1) d2 keys)
      else
        (case map_of d1 key of
           None \<Rightarrow> Inl KeyError
         | Some r1 \<Rightarrow>
             (case map_of d2 key of
                None \<Rightarrow> Inl KeyError
              | Some r2 \<Rightarrow>
                  merge_keys (h\<lparr>cells := (cells h)(r1 := cells h r1 @ cells h r2)\<rparr>)
                    (AList.update key r1 d1) d2 keys)))"

definition dict_intersection_merge :: "heap \<Rightarrow> pydict option \<Rightarrow> pydict \<Rightarrow> error + heap \<times> pydict" where
  "dict_intersection_merge h d1 d2 =
     (case d1 of
        None \<Rightarrow> Inr (h, d2)
      | Some d \<Rightarrow> merge_keys h d d2 (map fst d))"

subsection \<open>The matcher\<close>

text \<open>One iteration of the loop of \<^verbatim>\<open>find_devices\<close> (lines 158-166); the diagnostics printed
  before each \<^verbatim>\<open>continue\<close> are not part of the state.\<close>

definition find_devices_step ::
    "database \<Rightarrow> heap \<Rightarrow> pydict option \<Rightarrow> evidence \<Rightarrow> error + heap \<times> pydict option" where
  "find_devices_step cursor h matchs item =
     (case item of (addr, access) \<Rightarrow>
        (case find_devices_by_register cursor h addr access of (h1, m) \<Rightarrow>
           if m = [] then Inr (h1, matchs)
           else
             (case dict_intersection_merge h1 matchs m of
                Inl e \<Rightarrow> Inl e
              | Inr (h2, new_matchs) \<Rightarrow>
                  if new_matchs = [] then Inr (h2, matchs)
                  else Inr (h2, Some new_matchs))))"

fun find_devices_loop ::
    "database \<Rightarrow> heap \<Rightarrow> pydict option \<Rightarrow> evidence list \<Rightarrow> error + heap \<times> pydict option" where
  "find_devices_loop cursor h matchs [] = Inr (h, matchs)"
| "find_devices_loop cursor h matchs (item # regs) =
     (case find_devices_step cursor h matchs item of
        Inl e \<Rightarrow> Inl e
      | Inr (h', matchs') \<Rightarrow> find_devices_loop cursor h' matchs' regs)"

text \<open>\<open>regs\<close> is \<^verbatim>\<open>list(regs)\<close>, the pairs of the set in its iteration order.\<close>

definition find_devices :: "database \<Rightarrow> heap \<Rightarrow> evidence list \<Rightarrow> error + heap \<times> pydict option" where
  "find_devices cursor h regs = find_devices_loop cursor h None regs"

text \<open>What a dictionary holds, read through the store.\<close>

definition contents :: "heap \<Rightarrow> pydict \<Rightarrow> (int \<times> hit list) list" where
  "contents h d = map (\<lambda>(k, r). (k, cells h r)) d"

subsection \<open>The report of the main program\<close>

text \<open>
  The body of the loop over the input files (lines 183-208). What is printed is kept as a
  list of output items rather than formatted text; output printed before an exception is
  not kept. \<open>name\<close> is \<^verbatim>\<open>f.name\<close>, and \<open>iteration_order\<close> gives the order in which Python
  iterates a given set (\<^verbatim>\<open>list(regs)\<close>, and the comprehension of line 192).
\<close>

datatype out_item =
    Banner string
  | FoundAddresses "evidence list"
  | BlankLine
  | DeviceLine string string
  | RegisterLine string string string

text \<open>\<^verbatim>\<open>for p_name, reg_name, access in registers\<close>: unpacking anything but three items
  raises \<^verbatim>\<open>ValueError\<close>.\<close>

fun print_registers :: "hit list \<Rightarrow> error + out_item list" where
  "print_registers [] = Inr []"
| "print_registers (hit # registers) =
     (case hit of
        [p_name, reg_name, access] \<Rightarrow>
          (case print_registers registers of
             Inl e \<Rightarrow> Inl e
           | Inr out \<Rightarrow> Inr (RegisterLine access reg_name p_name # out))
      | _ \<Rightarrow> Inl ValueError)"

text \<open>\<^verbatim>\<open>for dev_id, registers in matchs.items()\<close>, for a dictionary. \<^verbatim>\<open>res.fetchone()\<close> is
  \<^verbatim>\<open>None\<close> when no device row has the id, and unpacking it raises \<^verbatim>\<open>TypeError\<close>.\<close>

fun print_devices :: "database \<Rightarrow> heap \<Rightarrow> pydict \<Rightarrow> error + out_item list" where
  "print_devices cursor h [] = Inr []"
| "print_devices cursor h ((dev_id, registers) # items) =
     (case filter (\<lambda>d. device_ident d = dev_id) (device_table cursor) of
        [] \<Rightarrow> Inl TypeError
      | d # _ \<Rightarrow>
          (let dev_name =
                 (case device_vendor d of
                    None \<Rightarrow> device_name d
                  | Some dev_vendor \<Rightarrow>
                      if dev_vendor \<noteq> [] then dev_vendor @ '' '' @ device_name d
                      else device_name d)
           in case print_registers (cells h registers) of
                Inl e \<Rightarrow> Inl e
              | Inr lines \<Rightarrow>
                  (case print_devices cursor h items of
                     Inl e \<Rightarrow> Inl e
                   | Inr out \<Rightarrow>
                       Inr (DeviceLine dev_name (svd_filename d) # lines @ BlankLine # out))))"

text \<open>\<^verbatim>\<open>matchs.items()\<close> on \<^verbatim>\<open>None\<close> raises \<^verbatim>\<open>AttributeError\<close>.\<close>

definition main_body ::
    "(evidence set \<Rightarrow> evidence list) \<Rightarrow> database \<Rightarrow> heap \<Rightarrow> string \<Rightarrow> firmware \<Rightarrow> error + out_item list" where
  "main_body iteration_order cursor h name firmware =
     (case find_used_registers firmware of
        Inl e \<Rightarrow> Inl e
      | Inr regs \<Rightarrow>
          (case find_devices cursor h (iteration_order regs) of
             Inl e \<Rightarrow> Inl e
           | Inr (h', matchs) \<Rightarrow>
               (case matchs of
                  None \<Rightarrow> Inl AttributeError
                | Some d \<Rightarrow>
                    (case print_devices cursor h' d of
                       Inl e \<Rightarrow> Inl e
                     | Inr out \<Rightarrow>
                         Inr (Banner name # FoundAddresses (iteration_order regs)
                                # BlankLine # out)))))"

section \<open>Notions used to state the properties\<close>

subsection \<open>The forward scan without its second Thumb-2 test\<close>

text \<open>The same scan with the test of line 53 removed, for comparison with the source.\<close>

function forward_scan_unchecked :: "firmware \<Rightarrow> int \<Rightarrow> nat \<Rightarrow> int list \<Rightarrow> error + evidence list" where
  "forward_scan_unchecked firmware data fw_offset2 registers_containing_addr =
     (if length firmware \<le> fw_offset2 then Inr []
      else if registers_containing_addr = [] then Inr []
      else
        (case scan_instr data (halfword firmware fw_offset2) registers_containing_addr of
           Raise e \<Rightarrow> Inl e
         | Break \<Rightarrow> Inr []
         | Next rs adds \<Rightarrow>
             (case forward_scan_unchecked firmware data (fw_offset2 + 2) rs of
                Inl e \<Rightarrow> Inl e
              | Inr rest \<Rightarrow> Inr (adds @ rest))))"
  by pat_completeness auto
termination
  by (relation "measure (\<lambda>(firmware, data, fw_offset2, rs). length firmware - fw_offset2)") auto

definition scan_candidate_unchecked :: "firmware \<Rightarrow> nat \<Rightarrow> error + evidence list" where
  "scan_candidate_unchecked firmware fw_offset =
     (let instr = halfword firmware fw_offset
      in if instr AND 0xF800 \<noteq> 0x4800 then Inr []
         else
           (let prev_instr = from_bytes_little (slice firmware (fw_offset - 2) fw_offset)
            in if prev_instr AND 0xE000 = 0xE000 then Inr []
               else
                 (let rd = drop_bit 8 instr AND 0x07;
                      data = literal_data firmware fw_offset instr
                  in forward_scan_unchecked firmware data (fw_offset + 2) [rd])))"

function outer_scan_unchecked :: "firmware \<Rightarrow> nat \<Rightarrow> error + evidence list" where
  "outer_scan_unchecked firmware fw_offset =
     (if length firmware \<le> fw_offset then Inr []
      else
        (case scan_candidate_unchecked firmware fw_offset of
           Inl e \<Rightarrow> Inl e
         | Inr adds \<Rightarrow>
             (case outer_scan_unchecked firmware (fw_offset + 2) of
                Inl e \<Rightarrow> Inl e
              | Inr rest \<Rightarrow> Inr (adds @ rest))))"
  by pat_completeness auto
termination
  by (relation "measure (\<lambda>(firmware, fw_offset). length firmware - fw_offset)") auto

definition find_used_registers_unchecked :: "firmware \<Rightarrow> error + evidence set" where
  "find_used_registers_unchecked firmware =
     (case outer_scan_unchecked firmware 2 of Inl e \<Rightarrow> Inl e | Inr adds \<Rightarrow> Inr (set adds))"

subsection \<open>The iterations of a forward scan\<close>

text \<open>
  The iterations of the inner loop that reach the decoding of an instruction, each with
  its offset and the value of \<^verbatim>\<open>registers_containing_addr\<close> on entry.
\<close>

function forward_states :: "firmware \<Rightarrow> int \<Rightarrow> int \<Rightarrow> nat \<Rightarrow> int list \<Rightarrow> (nat \<times> int list) list" where
  "forward_states firmware prev_instr data fw_offset2 registers_containing_addr =
     (if length firmware \<le> fw_offset2 then []
      else if registers_containing_addr = [] then []
      else if prev_instr AND 0xE000 = 0xE000 then []
      else (fw_offset2, registers_containing_addr) #
        (case scan_instr data (halfword firmware fw_offset2) registers_containing_addr of
           Raise e \<Rightarrow> []
         | Break \<Rightarrow> []
         | Next rs adds \<Rightarrow> forward_states firmware prev_instr data (fw_offset2 + 2) rs))"
  by pat_completeness auto
termination
  by (relation "measure (\<lambda>(firmware, prev_instr, data, fw_offset2, rs). length firmware - fw_offset2)") auto

text \<open>The \<^verbatim>\<open>regs.add\<close> calls of one iteration.\<close>

fun adds_of :: "step \<Rightarrow> evidence list" where
  "adds_of (Next rs adds) = adds"
| "adds_of (Raise e) = []"
| "adds_of Break = []"

text \<open>
  The instructions that the forward scan decodes as a redefinition of register \<open>r\<close>:
  a PC-relative load or a move of an immediate with destination \<open>r\<close>, the subtraction of
  line 104 (the source calls it \<^verbatim>\<open>SUBS\<close>; the mask selects the three-register form
  \<^verbatim>\<open>SUBS Rd, Rn, Rm\<close>) with destination \<open>r\<close>, or a word load with destination \<open>r\<close> whose
  base register is not tracked.
\<close>

definition redefines :: "int \<Rightarrow> int list \<Rightarrow> int \<Rightarrow> bool" where
  "redefines instr2 registers_containing_addr r \<longleftrightarrow>
     (instr2 AND 0xF800 = 0x4800 \<and> drop_bit 8 instr2 AND 0x07 = r) \<or>
     (instr2 AND 0xF800 = 0x2000 \<and> drop_bit 8 instr2 AND 0x07 = r) \<or>
     (instr2 AND 0xFE00 = 0x1A00 \<and> instr2 AND 0x07 = r) \<or>
     (instr2 AND 0xF800 = 0x6800 \<and> instr2 AND 0x07 = r \<and>
        drop_bit 3 instr2 AND 0x07 \<notin> set registers_containing_addr)"

text \<open>
  The Thumb encodings of a subtraction of an immediate with destination \<open>r\<close>:
  \<^verbatim>\<open>SUBS Rd, Rn, #imm3\<close> (\<^verbatim>\<open>0001111 imm3 Rn Rd\<close>) and \<^verbatim>\<open>SUBS Rdn, #imm8\<close>
  (\<^verbatim>\<open>00111 Rdn imm8\<close>). The source has no case for them.
\<close>

definition subtract_immediate :: "int \<Rightarrow> int \<Rightarrow> bool" where
  "subtract_immediate instr2 r \<longleftrightarrow>
     (instr2 AND 0xFE00 = 0x1E00 \<and> instr2 AND 0x07 = r) \<or>
     (instr2 AND 0xF800 = 0x3800 \<and> drop_bit 8 instr2 AND 0x07 = r)"

text \<open>
  The first halfword of a 32-bit Thumb instruction: bits 15 to 11 are \<^verbatim>\<open>11101\<close>,
  \<^verbatim>\<open>11110\<close> or \<^verbatim>\<open>11111\<close>. The test of the source (lines 35 and 53) looks at bits 15 to
  13 only.
\<close>

definition wide_prefix :: "int \<Rightarrow> bool" where
  "wide_prefix h \<longleftrightarrow> h AND 0xF800 = 0xE800 \<or> h AND 0xF800 = 0xF000 \<or> h AND 0xF800 = 0xF800"

text \<open>The \<^verbatim>\<open>regs.add\<close> calls of the iteration entered at an offset with a tracked list.\<close>

definition iteration_adds :: "firmware \<Rightarrow> int \<Rightarrow> nat \<times> int list \<Rightarrow> evidence list" where
  "iteration_adds firmware data = (\<lambda>(off, rs). adds_of (scan_instr data (halfword firmware off) rs))"

subsection \<open>Coverage of evidence by a device\<close>

text \<open>A register of device \<open>dev\<close> contains \<open>addr\<close> in its byte range
  \<open>[register_address, register_address + register_size / 8)\<close>, with the integer division
  of the query.\<close>

definition covers :: "database \<Rightarrow> int \<Rightarrow> int \<Rightarrow> bool" where
  "covers cursor dev addr \<longleftrightarrow>
     (\<exists>r \<in> set (register_table cursor). \<exists>p \<in> set (peripheral_table cursor).
        peripheral_id r = peripheral_ident p \<and> device_id p = dev \<and>
        register_address r \<le> addr \<and> addr < register_address r + register_size r sdiv 8)"

definition covers_all :: "database \<Rightarrow> int \<Rightarrow> evidence list \<Rightarrow> bool" where
  "covers_all cursor dev regs \<longleftrightarrow> (\<forall>(addr, access) \<in> set regs. covers cursor dev addr)"

text \<open>The device ids the catalog mentions.\<close>

definition catalog_devices :: "database \<Rightarrow> int set" where
  "catalog_devices cursor =
     device_ident ` set (device_table cursor) \<union> device_id ` set (peripheral_table cursor)"

definition sole_covering_device :: "database \<Rightarrow> int \<Rightarrow> evidence list \<Rightarrow> bool" where
  "sole_covering_device cursor dev regs \<longleftrightarrow>
     dev \<in> catalog_devices cursor \<and> covers_all cursor dev regs \<and>
     (\<forall>d \<in> catalog_devices cursor. d \<noteq> dev \<longrightarrow> \<not> covers_all cursor d regs)"

text \<open>The keys of a dictionary, in order.\<close>

definition keys :: "pydict \<Rightarrow> int list" where
  "keys d = map fst d"

subsection \<open>Well-formed dictionaries and the devices found by the query\<close>

text \<open>A dictionary has distinct keys, and its values are allocated references.\<close>

definition valid_dict :: "heap \<Rightarrow> pydict \<Rightarrow> bool" where
  "valid_dict h d \<longleftrightarrow> distinct (map fst d) \<and> (\<forall>r \<in> snd ` set d. r < fresh h)"

definition valid_state :: "heap \<Rightarrow> pydict option \<Rightarrow> bool" where
  "valid_state h matchs \<longleftrightarrow> (case matchs of None \<Rightarrow> True | Some d \<Rightarrow> valid_dict h d)"

text \<open>The device ids of the rows the query returns for an address.\<close>

definition matching_devices :: "database \<Rightarrow> int \<Rightarrow> int set" where
  "matching_devices cursor addr = fst ` set (select_registers cursor addr)"

text \<open>No register is wider than the 32 bytes the query looks back from an address.\<close>

definition registers_fit_prefilter :: "database \<Rightarrow> bool" where
  "registers_fit_prefilter cursor \<longleftrightarrow>
     (\<forall>r \<in> set (register_table cursor). register_size r sdiv 8 \<le> 32)"

subsection \<open>Offsets visited by the outer loop\<close>

text \<open>Python's \<^verbatim>\<open>range(start, stop, 2)\<close> as a list.\<close>

function range_step2 :: "nat \<Rightarrow> nat \<Rightarrow> nat list" where
  "range_step2 start stop = (if stop \<le> start then [] else start # range_step2 (start + 2) stop)"
  by pat_completeness auto
termination
  by (relation "measure (\<lambda>(start, stop). stop - start)") auto

text \<open>The \<^verbatim>\<open>regs.add\<close> calls of the outer loop body at one offset.\<close>

definition candidate_adds :: "firmware \<Rightarrow> nat \<Rightarrow> evidence list" where
  "candidate_adds firmware fw_offset =
     (case scan_candidate firmware fw_offset of Inl e \<Rightarrow> [] | Inr adds \<Rightarrow> adds)"

subsection \<open>Concrete inputs\<close>

text \<open>
  \<^verbatim>\<open>ldr r3, [pc, #4]\<close> at offset 2 loads the word \<^verbatim>\<open>0x40000000\<close> stored at offset 8; it is
  followed by \<^verbatim>\<open>ldr r0, [r3, #0]\<close> and \<^verbatim>\<open>str r0, [r3, #4]\<close>, in this order and in the
  opposite one.
\<close>

definition firmware_read_then_write :: firmware where
  "firmware_read_then_write =
     [0x00, 0x00, 0x01, 0x4B, 0x18, 0x68, 0x58, 0x60, 0x00, 0x00, 0x00, 0x40]"

definition firmware_write_then_read :: firmware where
  "firmware_write_then_read =
     [0x00, 0x00, 0x01, 0x4B, 0x58, 0x60, 0x18, 0x68, 0x00, 0x00, 0x00, 0x40]"

text \<open>The same load at offset 0, followed by \<^verbatim>\<open>ldr r0, [r3, #0]\<close>.\<close>

definition firmware_load_at_zero :: firmware where
  "firmware_load_at_zero =
     [0x01, 0x4B, 0x18, 0x68, 0x00, 0x00, 0x00, 0x00, 0x00, 0x00, 0x00, 0x40]"

text \<open>The first image cut after eleven bytes: the literal slot at offset 8 has three bytes.\<close>

definition firmware_truncated :: firmware where
  "firmware_truncated =
     [0x00, 0x00, 0x01, 0x4B, 0x18, 0x68, 0x58, 0x60, 0x00, 0x00, 0x40]"

text \<open>
  \<^verbatim>\<open>ldr r3, [pc, #8]\<close> at offset 2 loads the word \<^verbatim>\<open>0x40000000\<close> stored at offset 12; it
  is followed by \<^verbatim>\<open>ldr r0, [r3, #0]\<close>, \<^verbatim>\<open>movs r3, #0\<close> and \<^verbatim>\<open>str r0, [r3, #4]\<close>.
\<close>

definition firmware_load_move_store :: firmware where
  "firmware_load_move_store =
     [0x00, 0x00, 0x02, 0x4B, 0x18, 0x68, 0x00, 0x23, 0x58, 0x60, 0x00, 0x00,
      0x00, 0x00, 0x00, 0x40]"

text \<open>The same load followed by \<^verbatim>\<open>subs r3, #1\<close> and \<^verbatim>\<open>ldr r0, [r3, #0]\<close>.\<close>

definition firmware_load_subtract :: firmware where
  "firmware_load_subtract =
     [0x00, 0x00, 0x02, 0x4B, 0x01, 0x3B, 0x18, 0x68, 0x00, 0x00, 0x00, 0x00,
      0x00, 0x00, 0x00, 0x40]"

text \<open>
  The load \<^verbatim>\<open>ldr r3, [pc, #4]\<close> at offset 2, after the 16-bit branch \<^verbatim>\<open>b .\<close>
  (\<^verbatim>\<open>0xE7FE\<close>) and after the first halfword \<^verbatim>\<open>0xF000\<close> of a 32-bit instruction.
\<close>

definition firmware_load_after_branch :: firmware where
  "firmware_load_after_branch =
     [0xFE, 0xE7, 0x01, 0x4B, 0x18, 0x68, 0x00, 0x00, 0x00, 0x00, 0x00, 0x40]"

definition firmware_load_after_wide_prefix :: firmware where
  "firmware_load_after_wide_prefix =
     [0x00, 0xF0, 0x01, 0x4B, 0x18, 0x68, 0x00, 0x00, 0x00, 0x00, 0x00, 0x40]"

text \<open>Stores and catalogs.\<close>

definition empty_heap :: heap where
  "empty_heap = \<lparr>cells = (\<lambda>r. []), fresh = 0\<rparr>"

definition empty_catalog :: database where
  "empty_catalog = \<lparr>device_table = [], peripheral_table = [], register_table = []\<rparr>"

definition catalog_one_device :: database where
  "catalog_one_device =
     \<lparr>device_table =
        [\<lparr>device_ident = 1, device_name = ''M1'', device_vendor = Some ''V'', svd_filename = ''m1.svd''\<rparr>],
      peripheral_table =
        [\<lparr>peripheral_ident = 1, device_id = 1, peripheral_name = ''TIM'', peripheral_address = 0x40000000\<rparr>],
      register_table =
        [\<lparr>peripheral_id = 1, register_name = ''CR'', register_access = ''read-write'',
          register_address = 0x40000000, register_size = 32\<rparr>]\<rparr>"

definition catalog_two_devices :: database where
  "catalog_two_devices =
     \<lparr>device_table =
        [\<lparr>device_ident = 1, device_name = ''M1'', device_vendor = Some ''V'', svd_filename = ''m1.svd''\<rparr>,
         \<lparr>device_ident = 2, device_name = ''M2'', device_vendor = None, svd_filename = ''m2.svd''\<rparr>],
      peripheral_table =
        [\<lparr>peripheral_ident = 1, device_id = 1, peripheral_name = ''TIM'', peripheral_address = 0x40000000\<rparr>,
         \<lparr>peripheral_ident = 2, device_id = 2, peripheral_name = ''UART'', peripheral_address = 0x40000000\<rparr>],
      register_table =
        [\<lparr>peripheral_id = 1, register_name = ''CR'', register_access = ''read-write'',
          register_address = 0x40000000, register_size = 32\<rparr>,
         \<lparr>peripheral_id = 1, register_name = ''SR'', register_access = ''read-only'',
          register_address = 0x40000004, register_size = 32\<rparr>,
         \<lparr>peripheral_id = 2, register_name = ''DR'', register_access = ''read-write'',
          register_address = 0x40000000, register_size = 32\<rparr>]\<rparr>"

definition catalog_wide_register :: database where
  "catalog_wide_register =
     \<lparr>device_table =
        [\<lparr>device_ident = 1, device_name = ''M1'', device_vendor = Some ''V'', svd_filename = ''m1.svd''\<rparr>],
      peripheral_table =
        [\<lparr>peripheral_ident = 1, device_id = 1, peripheral_name = ''DMA'', peripheral_address = 0x40000000\<rparr>],
      register_table =
        [\<lparr>peripheral_id = 1, register_name = ''BUF'', register_access = ''read-write'',
          register_address = 0x40000000, register_size = 512\<rparr>]\<rparr>"

section \<open>Properties of the recovery scan\<close>

declare forward_scan.simps [simp del] forward_scan_unchecked.simps [simp del]
  outer_scan.simps [simp del] outer_scan_unchecked.simps [simp del]
  forward_states.simps [simp del] range_step2.simps [simp del]

subsection \<open>The scan never raises\<close>

lemma from_bytes_little_bounds: "0 \<le> from_bytes_little bs \<and> from_bytes_little bs < 256 ^ length bs"
proof (induction bs)
  case Nil
  show ?case by simp
next
  case (Cons b bs)
  have "uint b < 256" using uint_bounded [of b] by simp
  moreover have "0 \<le> uint b" by simp
  ultimately show ?case using Cons by simp
qed

lemma remove_step_no_raise: "remove_step rd2 rs \<noteq> Raise e"
  by (simp add: remove_step_def list_remove_def)

lemma access_step_no_raise: "access_step addr rs access \<noteq> Raise e"
  by (simp add: access_step_def)

lemma scan_instr_no_raise: "scan_instr data instr2 rs \<noteq> Raise e"
  by (simp add: scan_instr_def Let_def remove_step_no_raise access_step_no_raise)

lemma forward_scan_total: "\<exists>adds. forward_scan firmware prev_instr data fw_offset2 rs = Inr adds"
proof (induction firmware prev_instr data fw_offset2 rs rule: forward_scan.induct)
  case (1 firmware prev_instr data fw_offset2 rs)
  show ?case
  proof (cases "scan_instr data (halfword firmware fw_offset2) rs")
    case (Raise e)
    then show ?thesis by (simp add: scan_instr_no_raise)
  next
    case Break
    then show ?thesis by (subst forward_scan.simps) simp
  next
    case (Next rs' adds)
    show ?thesis
    proof (cases "length firmware \<le> fw_offset2 \<or> rs = [] \<or> prev_instr AND 0xE000 = 0xE000")
      case True
      then show ?thesis by (subst forward_scan.simps) auto
    next
      case False
      with 1 [OF _ _ _ Next] obtain rest where
        "forward_scan firmware prev_instr data (fw_offset2 + 2) rs' = Inr rest"
        by auto
      with Next False show ?thesis by (subst forward_scan.simps) simp
    qed
  qed
qed

lemma scan_candidate_total: "\<exists>adds. scan_candidate firmware fw_offset = Inr adds"
  by (simp add: scan_candidate_def Let_def forward_scan_total)

lemma outer_scan_total: "\<exists>adds. outer_scan firmware fw_offset = Inr adds"
proof (induction firmware fw_offset rule: outer_scan.induct)
  case (1 firmware fw_offset)
  show ?case
  proof (cases "length firmware \<le> fw_offset")
    case True
    then show ?thesis by (subst outer_scan.simps) simp
  next
    case False
    obtain adds where a: "scan_candidate firmware fw_offset = Inr adds"
      using scan_candidate_total by blast
    with 1 [OF False a] obtain rest where "outer_scan firmware (fw_offset + 2) = Inr rest"
      by blast
    with a False show ?thesis by (subst outer_scan.simps) simp
  qed
qed

subsection \<open>Values read past the end of the image\<close>

lemma imm5_bounds: "0 \<le> (x::int) AND 0x1F \<and> x AND 0x1F \<le> 31"
  by (simp add: and_nonnegative_int_iff AND_upper2)

lemma small_not_in_window:
  assumes "0 \<le> data" "data < 2 ^ 24" "0 \<le> imm5" "imm5 \<le> 31" "scale \<le> 2"
  shows "\<not> in_peripheral_window (data + push_bit scale imm5)"
proof -
  have "(2::int) ^ scale \<le> 2 ^ 2"
    using assms(5) by (intro power_increasing) simp_all
  then have "imm5 * 2 ^ scale \<le> 31 * 4"
    using assms(3,4) by (intro mult_mono) simp_all
  then have "data + push_bit scale imm5 < 0x40000000"
    using assms(2) by (simp add: push_bit_eq_mult)
  then show ?thesis
    by (simp add: in_peripheral_window_def)
qed

lemma access_step_small:
  assumes "0 \<le> data" "data < 2 ^ 24" "scale \<le> 2"
  shows "access_step (data + push_bit scale (x AND 0x1F)) rs access = Next rs []"
  using small_not_in_window [OF assms(1,2) _ _ assms(3), of "x AND 0x1F"] imm5_bounds [of x]
  by (simp add: access_step_def)

lemma remove_step_adds: "adds_of (remove_step rd2 rs) = []"
  by (simp add: remove_step_def list_remove_def)

lemma scan_instr_small:
  assumes "0 \<le> data" "data < 2 ^ 24"
  shows "adds_of (scan_instr data instr2 rs) = []"
proof -
  have a2: "access_step (data + push_bit 2 (x AND 0x1F)) rs access = Next rs []" for x access
    using access_step_small [OF assms, of 2] by simp
  have a1: "access_step (data + push_bit 1 (x AND 0x1F)) rs access = Next rs []" for x access
    using access_step_small [OF assms, of 1] by simp
  have a0: "access_step (data + (x AND 0x1F)) rs access = Next rs []" for x access
    using access_step_small [OF assms, of 0 x rs access] by simp
  show ?thesis
    unfolding scan_instr_def Let_def a0 a1 a2
    by (simp add: remove_step_adds)
qed

lemma forward_scan_small:
  "0 \<le> data \<Longrightarrow> data < 2 ^ 24 \<Longrightarrow>
   forward_scan firmware prev_instr data fw_offset2 rs = Inr []"
proof (induction firmware prev_instr data fw_offset2 rs rule: forward_scan.induct)
  case (1 firmware prev_instr data fw_offset2 rs)
  show ?case
  proof (cases "scan_instr data (halfword firmware fw_offset2) rs")
    case (Raise e)
    then show ?thesis by (simp add: scan_instr_no_raise)
  next
    case Break
    then show ?thesis by (subst forward_scan.simps) simp
  next
    case (Next rs' adds)
    with scan_instr_small [OF "1.prems", of "halfword firmware fw_offset2" rs]
    have adds: "adds = []" by simp
    show ?thesis
    proof (cases "length firmware \<le> fw_offset2 \<or> rs = [] \<or> prev_instr AND 0xE000 = 0xE000")
      case True
      then show ?thesis by (subst forward_scan.simps) auto
    next
      case False
      with "1.IH" [OF _ _ _ Next] "1.prems"
      have "forward_scan firmware prev_instr data (fw_offset2 + 2) rs' = Inr []"
        by auto
      with Next False adds show ?thesis by (subst forward_scan.simps) simp
    qed
  qed
qed

lemma truncated_literal_small:
  assumes "length firmware < data_offset fw_offset instr + 4"
  shows "0 \<le> literal_data firmware fw_offset instr \<and> literal_data firmware fw_offset instr < 2 ^ 24"
proof -
  let ?bs = "slice firmware (data_offset fw_offset instr) (data_offset fw_offset instr + 4)"
  have "length ?bs \<le> 3"
    using assms by (simp add: slice_def)
  then have "(256::int) ^ length ?bs \<le> 256 ^ 3"
    by (intro power_increasing) simp_all
  with from_bytes_little_bounds [of ?bs] show ?thesis
    by (simp add: literal_data_def)
qed

lemma odd_tail_halfword:
  assumes "fw_offset + 1 = length firmware"
  shows "halfword firmware fw_offset AND 0xF800 \<noteq> 0x4800"
proof -
  let ?bs = "slice firmware fw_offset (fw_offset + 2)"
  have "length ?bs = 1"
    using assms by (simp add: slice_def)
  with from_bytes_little_bounds [of ?bs]
  have b: "0 \<le> halfword firmware fw_offset" "halfword firmware fw_offset < 256"
    by (simp_all add: halfword_def)
  have "halfword firmware fw_offset AND 0xF800 \<le> halfword firmware fw_offset"
    using b(1) by (rule AND_upper1)
  with b(2) show ?thesis by simp
qed

text \<open>
  C8. For every byte sequence \<^verbatim>\<open>find_used_registers\<close> returns a set and raises nothing.
  When the four-byte literal slot of a candidate reaches past the end of the image, the
  value read is below \<open>2 ^ 24\<close>, no address formed from it with a scaled five-bit
  offset lies in a peripheral window, and the forward scan records nothing. When the
  last byte of the image stands alone at an even offset, the value decoded there is
  not a PC-relative load and the outer loop body records nothing.
\<close>

theorem scan_never_raises_and_ignores_truncated_reads:
  "(\<exists>regs. find_used_registers firmware = Inr regs) \<and>
   (length firmware < data_offset fw_offset instr + 4 \<longrightarrow>
      forward_scan firmware prev_instr (literal_data firmware fw_offset instr) fw_offset2 rs = Inr [] \<and>
      (\<forall>imm5 scale. 0 \<le> imm5 \<and> imm5 \<le> 31 \<and> scale \<le> 2 \<longrightarrow>
         \<not> in_peripheral_window (literal_data firmware fw_offset instr + push_bit scale imm5))) \<and>
   (fw_offset + 1 = length firmware \<longrightarrow>
      halfword firmware fw_offset AND 0xF800 \<noteq> 0x4800 \<and>
      scan_candidate firmware fw_offset = Inr [])"
proof -
  obtain adds where "outer_scan firmware 2 = Inr adds"
    using outer_scan_total by blast
  then have total: "\<exists>regs. find_used_registers firmware = Inr regs"
    by (simp add: find_used_registers_def)
  have trunc: "forward_scan firmware prev_instr (literal_data firmware fw_offset instr) fw_offset2 rs = Inr [] \<and>
      (\<forall>imm5 scale. 0 \<le> imm5 \<and> imm5 \<le> 31 \<and> scale \<le> 2 \<longrightarrow>
         \<not> in_peripheral_window (literal_data firmware fw_offset instr + push_bit scale imm5))"
    if "length firmware < data_offset fw_offset instr + 4"
    using truncated_literal_small [OF that] forward_scan_small small_not_in_window
    by blast
  have tail: "halfword firmware fw_offset AND 0xF800 \<noteq> 0x4800 \<and>
      scan_candidate firmware fw_offset = Inr []"
    if "fw_offset + 1 = length firmware"
    using odd_tail_halfword [OF that] by (simp add: scan_candidate_def Let_def)
  from total trunc tail show ?thesis by blast
qed

theorem scan_never_raises_and_ignores_truncated_reads_witness:
  "(\<exists>regs. find_used_registers firmware_truncated = Inr regs) \<and>
   length firmware_truncated < data_offset 2 0x4B01 + 4 \<and>
   forward_scan firmware_truncated 0 (literal_data firmware_truncated 2 0x4B01) 4 [3] = Inr [] \<and>
   10 + 1 = length firmware_truncated \<and>
   scan_candidate firmware_truncated 10 = Inr []"
proof -
  have len: "length firmware_truncated = 11"
    by (simp add: firmware_truncated_def)
  have off: "data_offset 2 0x4B01 = 8"
    by (simp add: data_offset_def)
  show ?thesis
    using scan_never_raises_and_ignores_truncated_reads
            [of firmware_truncated 2 "0x4B01" 0 4 "[3]"]
          scan_never_raises_and_ignores_truncated_reads
            [of firmware_truncated 10 "0x4B01" 0 4 "[3]"]
    by (simp add: len off)
qed

subsection \<open>The literal-pool slot\<close>

lemma align4_nat: "(n::nat) div 4 * 4 = n - n mod 4"
  by (simp only: minus_mod_eq_div_mult)

lemma data_offset_eq:
  "data_offset fw_offset instr =
     (fw_offset + 4 * nat (instr AND 0xFF)) - (fw_offset + 4 * nat (instr AND 0xFF)) mod 4 + 4"
proof -
  define i where "i = nat (instr AND 0xFF)"
  have "0 \<le> instr AND 0xFF"
    by (simp add: and_nonnegative_int_iff)
  then have i: "instr AND 0xFF = int i"
    by (simp only: i_def int_nat_eq if_True)
  have "(int fw_offset + int i * 4) div 4 * 4 + 4 = int ((fw_offset + 4 * i) div 4 * 4 + 4)"
    by (simp only: of_nat_add of_nat_mult of_nat_div of_nat_numeral mult.commute)
  then have "nat ((int fw_offset + int i * 4) div 4 * 4 + 4) = (fw_offset + 4 * i) div 4 * 4 + 4"
    by (simp only: nat_int)
  then have "data_offset fw_offset instr = (fw_offset + 4 * i) div 4 * 4 + 4"
    by (simp only: data_offset_def Let_def push_bit_eq_mult i power2_eq_square numeral_times_numeral
          semiring_norm num.simps) 
  then show ?thesis
    by (simp only: align4_nat i_def)
qed

lemma take4:
  "s + 4 \<le> length xs \<Longrightarrow> take 4 (drop s xs) = [xs ! s, xs ! (s + 1), xs ! (s + 2), xs ! (s + 3)]"
  by (simp add: list_eq_iff_nth_eq nth_Cons' numeral_eq_Suc less_Suc_eq)

text \<open>
  C6. For a candidate at offset \<open>fw_offset\<close> whose immediate field is \<open>instr AND 0xFF\<close>,
  the slot is \<open>fw_offset + 4 * imm8\<close> rounded down to a multiple of 4, plus 4; the
  data is the little-endian value of the (at most four) bytes of the image from the slot
  on, and when the four bytes are inside the image it is their 32-bit little-endian
  value. An accepted candidate starts the forward scan with this data.
\<close>

theorem literal_slot_and_data:
  "data_offset fw_offset instr =
     (fw_offset + 4 * nat (instr AND 0xFF)) - (fw_offset + 4 * nat (instr AND 0xFF)) mod 4 + 4 \<and>
   literal_data firmware fw_offset instr =
     from_bytes_little (take 4 (drop (data_offset fw_offset instr) firmware)) \<and>
   (data_offset fw_offset instr + 4 \<le> length firmware \<longrightarrow>
      literal_data firmware fw_offset instr =
        uint (firmware ! data_offset fw_offset instr)
        + 256 * uint (firmware ! (data_offset fw_offset instr + 1))
        + 65536 * uint (firmware ! (data_offset fw_offset instr + 2))
        + 16777216 * uint (firmware ! (data_offset fw_offset instr + 3)) \<and>
      0 \<le> literal_data firmware fw_offset instr \<and>
      literal_data firmware fw_offset instr < 2 ^ 32) \<and>
   (halfword firmware fw_offset AND 0xF800 = 0x4800 \<and>
    from_bytes_little (slice firmware (fw_offset - 2) fw_offset) AND 0xE000 \<noteq> 0xE000 \<longrightarrow>
      scan_candidate firmware fw_offset =
        forward_scan firmware (from_bytes_little (slice firmware (fw_offset - 2) fw_offset))
          (literal_data firmware fw_offset (halfword firmware fw_offset)) (fw_offset + 2)
          [drop_bit 8 (halfword firmware fw_offset) AND 0x07])"
proof -
  have slot: "data_offset fw_offset instr =
     (fw_offset + 4 * nat (instr AND 0xFF)) - (fw_offset + 4 * nat (instr AND 0xFF)) mod 4 + 4"
    by (rule data_offset_eq)
  have data: "literal_data firmware fw_offset instr =
     from_bytes_little (take 4 (drop (data_offset fw_offset instr) firmware))"
    by (simp add: literal_data_def slice_def)
  have full: "literal_data firmware fw_offset instr =
        uint (firmware ! data_offset fw_offset instr)
        + 256 * uint (firmware ! (data_offset fw_offset instr + 1))
        + 65536 * uint (firmware ! (data_offset fw_offset instr + 2))
        + 16777216 * uint (firmware ! (data_offset fw_offset instr + 3)) \<and>
      0 \<le> literal_data firmware fw_offset instr \<and>
      literal_data firmware fw_offset instr < 2 ^ 32"
    if "data_offset fw_offset instr + 4 \<le> length firmware"
  proof -
    have "take 4 (drop (data_offset fw_offset instr) firmware) =
      [firmware ! data_offset fw_offset instr, firmware ! (data_offset fw_offset instr + 1),
       firmware ! (data_offset fw_offset instr + 2), firmware ! (data_offset fw_offset instr + 3)]"
      using that by (rule take4)
    moreover have "0 \<le> literal_data firmware fw_offset instr \<and>
        literal_data firmware fw_offset instr < 256 ^ 4"
      using from_bytes_little_bounds [of "take 4 (drop (data_offset fw_offset instr) firmware)"] that
      by (simp add: data)
    ultimately show ?thesis
      by (simp add: data)
  qed
  have cand: "scan_candidate firmware fw_offset =
        forward_scan firmware (from_bytes_little (slice firmware (fw_offset - 2) fw_offset))
          (literal_data firmware fw_offset (halfword firmware fw_offset)) (fw_offset + 2)
          [drop_bit 8 (halfword firmware fw_offset) AND 0x07]"
    if "halfword firmware fw_offset AND 0xF800 = 0x4800"
      and "from_bytes_little (slice firmware (fw_offset - 2) fw_offset) AND 0xE000 \<noteq> 0xE000"
    using that by (simp add: scan_candidate_def Let_def)
  from slot data full cand show ?thesis by blast
qed

theorem literal_slot_and_data_witness:
  "data_offset 2 0x4B01 = 8 \<and>
   literal_data firmware_read_then_write 2 0x4B01 = 0x40000000 \<and>
   scan_candidate firmware_read_then_write 2 =
     forward_scan firmware_read_then_write 0 0x40000000 4 [3]"
proof -
  have len: "data_offset 2 0x4B01 + 4 \<le> length firmware_read_then_write"
    by (simp add: data_offset_def firmware_read_then_write_def)
  have hw: "halfword firmware_read_then_write 2 = 0x4B01"
    by (simp add: halfword_def slice_def firmware_read_then_write_def)
  have prev: "from_bytes_little (slice firmware_read_then_write (2 - 2) 2) = 0"
    by (simp add: slice_def firmware_read_then_write_def)
  have off: "data_offset 2 0x4B01 = 8"
    by (simp add: data_offset_def)
  show ?thesis
    using literal_slot_and_data [of 2 "0x4B01" firmware_read_then_write] len
    by (simp add: off firmware_read_then_write_def halfword_def slice_def)
qed

subsection \<open>The second Thumb-2 test of the forward scan\<close>

lemma forward_scan_check_redundant:
  "prev_instr AND 0xE000 \<noteq> 0xE000 \<Longrightarrow>
   forward_scan firmware prev_instr data fw_offset2 rs =
   forward_scan_unchecked firmware data fw_offset2 rs"
proof (induction firmware prev_instr data fw_offset2 rs rule: forward_scan.induct)
  case (1 firmware prev_instr data fw_offset2 rs)
  show ?case
    using 1
    by (subst forward_scan.simps, subst forward_scan_unchecked.simps)
       (auto split: step.splits sum.splits)
qed

lemma scan_candidate_check_redundant:
  "scan_candidate firmware fw_offset = scan_candidate_unchecked firmware fw_offset"
  by (simp add: scan_candidate_def scan_candidate_unchecked_def Let_def
      forward_scan_check_redundant)

lemma outer_scan_check_redundant:
  "outer_scan firmware fw_offset = outer_scan_unchecked firmware fw_offset"
proof (induction firmware fw_offset rule: outer_scan.induct)
  case (1 firmware fw_offset)
  show ?case
    using 1
    by (subst outer_scan.simps, subst outer_scan_unchecked.simps)
       (auto simp: scan_candidate_check_redundant split: sum.splits)
qed

text \<open>
  C10. The test of line 53 looks at \<^verbatim>\<open>prev_instr\<close> of the outer loop, which has passed
  the same test on line 35: the test never ends a forward scan, and
  \<^verbatim>\<open>find_used_registers\<close> computes the same result with the test removed, for every
  image and at every candidate offset.
\<close>

theorem inner_wide_prefix_check_is_dead:
  "find_used_registers firmware = find_used_registers_unchecked firmware \<and>
   scan_candidate firmware fw_offset = scan_candidate_unchecked firmware fw_offset"
  by (simp add: find_used_registers_def find_used_registers_unchecked_def
      outer_scan_check_redundant scan_candidate_check_redundant)

theorem inner_wide_prefix_check_is_dead_witness:
  "find_used_registers firmware_read_then_write =
     find_used_registers_unchecked firmware_read_then_write \<and>
   scan_candidate firmware_read_then_write 2 = scan_candidate_unchecked firmware_read_then_write 2"
  by (rule inner_wide_prefix_check_is_dead)

subsection \<open>The order of discovery\<close>

lemma adds_read_then_write:
  "outer_scan firmware_read_then_write 2 = Inr [(0x40000000, ''read''), (0x40000004, ''write'')]"
  by code_simp

lemma adds_write_then_read:
  "outer_scan firmware_write_then_read 2 = Inr [(0x40000004, ''write''), (0x40000000, ''read'')]"
  by code_simp

text \<open>
  C1. The docstring of \<^verbatim>\<open>find_used_registers\<close> promises addresses ordered by position in
  the file, but the function returns a Python \<^verbatim>\<open>set\<close>. Two images that record the same
  two pairs in opposite orders return the same value, so the order of discovery is not
  part of the result and cannot reach \<^verbatim>\<open>find_devices\<close>.
\<close>

theorem returned_set_forgets_discovery_order:
  "outer_scan firmware_read_then_write 2 = Inr [(0x40000000, ''read''), (0x40000004, ''write'')] \<and>
   outer_scan firmware_write_then_read 2 = Inr [(0x40000004, ''write''), (0x40000000, ''read'')] \<and>
   find_used_registers firmware_read_then_write = find_used_registers firmware_write_then_read"
  by (simp add: find_used_registers_def adds_read_then_write adds_write_then_read insert_commute)

subsection \<open>The offsets the outer loop visits\<close>

lemma scan_candidate_adds: "scan_candidate firmware fw_offset = Inr (candidate_adds firmware fw_offset)"
  using scan_candidate_total [of firmware fw_offset] by (auto simp: candidate_adds_def)

lemma outer_scan_concat:
  "outer_scan firmware fw_offset =
     Inr (concat (map (candidate_adds firmware) (range_step2 fw_offset (length firmware))))"
proof (induction firmware fw_offset rule: outer_scan.induct)
  case (1 firmware fw_offset)
  show ?case
  proof (cases "length firmware \<le> fw_offset")
    case True
    then show ?thesis
      by (subst outer_scan.simps, subst range_step2.simps) simp
  next
    case False
    from 1 [OF False scan_candidate_adds]
    have "outer_scan firmware (fw_offset + 2) =
        Inr (concat (map (candidate_adds firmware) (range_step2 (fw_offset + 2) (length firmware))))" .
    with False show ?thesis
      by (subst outer_scan.simps, subst range_step2.simps) (simp add: scan_candidate_adds)
  qed
qed

lemma parity_step:
  assumes "start \<le> i" "i \<noteq> start" "even i \<longleftrightarrow> even start"
  shows "start + 2 \<le> (i::nat)"
proof (rule ccontr)
  assume "\<not> start + 2 \<le> i"
  with assms(1,2) have "i = Suc start" by arith
  with assms(3) show False by simp
qed

lemma set_range_step2:
  "set (range_step2 start stop) = {i. start \<le> i \<and> i < stop \<and> (even i \<longleftrightarrow> even start)}"
proof (induction start stop rule: range_step2.induct)
  case (1 start stop)
  show ?case
  proof (cases "stop \<le> start")
    case True
    then show ?thesis
      by (subst range_step2.simps) auto
  next
    case False
    have "{i. start \<le> i \<and> i < stop \<and> (even i \<longleftrightarrow> even start)} =
        insert start {i. start + 2 \<le> i \<and> i < stop \<and> (even i \<longleftrightarrow> even (start + 2))}"
      using False by (auto dest: parity_step)
    with 1 [OF False] False show ?thesis
      by (subst range_step2.simps) simp
  qed
qed

lemma offsets_from_two:
  "set (range_step2 2 stop) = {off. even off \<and> 2 \<le> off \<and> off < stop}"
  unfolding set_range_step2 by auto

lemma wide_prefix_mask: "wide_prefix h \<Longrightarrow> h AND 0xE000 = 0xE000"
proof -
  assume "wide_prefix h"
  then consider "h AND 0xF800 = 0xE800" | "h AND 0xF800 = 0xF000" | "h AND 0xF800 = 0xF800"
    unfolding wide_prefix_def by blast
  then have "(h AND 0xF800) AND 0xE000 = 0xE000"
    by cases simp_all
  moreover have "(h AND 0xF800) AND 0xE000 = h AND (0xF800 AND 0xE000)"
    by (simp only: and.assoc)
  ultimately show ?thesis by simp
qed

text \<open>
  C9, as amended. The outer loop visits the even offsets from 2 up to the end of the image,
  in increasing order, and no other offset: offset 0 is never a candidate position. At
  each visited offset the halfword is decoded; a value that is not a PC-relative load
  records nothing; a PC-relative load whose preceding halfword has bits 15 to 13 not all
  set (\<^verbatim>\<open>prev_instr & 0xE000 != 0xE000\<close>, so that it is not the first half of a 32-bit
  instruction) starts the forward scan; a PC-relative load preceded by the first half of
  a 32-bit instruction records nothing. The result is the union of what the visited
  offsets record.
\<close>

theorem outer_scan_visits_even_offsets_from_two:
  "outer_scan firmware 2 =
     Inr (concat (map (candidate_adds firmware) (range_step2 2 (length firmware)))) \<and>
   set (range_step2 2 (length firmware)) = {off. even off \<and> 2 \<le> off \<and> off < length firmware} \<and>
   find_used_registers firmware =
     Inr (\<Union>off \<in> {off. even off \<and> 2 \<le> off \<and> off < length firmware}.
            set (candidate_adds firmware off)) \<and>
   scan_candidate firmware fw_offset = Inr (candidate_adds firmware fw_offset) \<and>
   (halfword firmware fw_offset AND 0xF800 \<noteq> 0x4800 \<longrightarrow> candidate_adds firmware fw_offset = []) \<and>
   (halfword firmware fw_offset AND 0xF800 = 0x4800 \<and>
    wide_prefix (from_bytes_little (slice firmware (fw_offset - 2) fw_offset)) \<longrightarrow>
      candidate_adds firmware fw_offset = []) \<and>
   (halfword firmware fw_offset AND 0xF800 = 0x4800 \<and>
    from_bytes_little (slice firmware (fw_offset - 2) fw_offset) AND 0xE000 \<noteq> 0xE000 \<longrightarrow>
      \<not> wide_prefix (from_bytes_little (slice firmware (fw_offset - 2) fw_offset)) \<and>
      Inr (candidate_adds firmware fw_offset) =
        forward_scan firmware (from_bytes_little (slice firmware (fw_offset - 2) fw_offset))
          (literal_data firmware fw_offset (halfword firmware fw_offset)) (fw_offset + 2)
          [drop_bit 8 (halfword firmware fw_offset) AND 0x07])"
proof -
  let ?prev = "from_bytes_little (slice firmware (fw_offset - 2) fw_offset)"
  have a: "outer_scan firmware 2 =
     Inr (concat (map (candidate_adds firmware) (range_step2 2 (length firmware))))"
    by (rule outer_scan_concat)
  have b: "set (range_step2 2 (length firmware)) = {off. even off \<and> 2 \<le> off \<and> off < length firmware}"
    by (rule offsets_from_two)
  have c: "find_used_registers firmware =
     Inr (\<Union>off \<in> {off. even off \<and> 2 \<le> off \<and> off < length firmware}.
            set (candidate_adds firmware off))"
    unfolding find_used_registers_def a b [symmetric] by simp
  have d: "scan_candidate firmware fw_offset = Inr (candidate_adds firmware fw_offset)"
    by (rule scan_candidate_adds)
  have e: "candidate_adds firmware fw_offset = []"
    if "halfword firmware fw_offset AND 0xF800 \<noteq> 0x4800"
    using that by (simp add: candidate_adds_def scan_candidate_def)
  have w: "candidate_adds firmware fw_offset = []"
    if "halfword firmware fw_offset AND 0xF800 = 0x4800 \<and> wide_prefix ?prev"
    using that wide_prefix_mask [of ?prev]
    by (simp add: candidate_adds_def scan_candidate_def Let_def)
  have f: "\<not> wide_prefix ?prev \<and>
      Inr (candidate_adds firmware fw_offset) =
        forward_scan firmware ?prev
          (literal_data firmware fw_offset (halfword firmware fw_offset)) (fw_offset + 2)
          [drop_bit 8 (halfword firmware fw_offset) AND 0x07]"
    if "halfword firmware fw_offset AND 0xF800 = 0x4800 \<and> ?prev AND 0xE000 \<noteq> 0xE000"
    unfolding d [symmetric] using that wide_prefix_mask [of ?prev]
    by (auto simp: scan_candidate_def Let_def)
  from a b c d e w f show ?thesis by blast
qed

theorem outer_scan_visits_even_offsets_from_two_witness:
  "outer_scan firmware_read_then_write 2 =
     Inr (concat (map (candidate_adds firmware_read_then_write)
       (range_step2 2 (length firmware_read_then_write)))) \<and>
   halfword firmware_read_then_write 4 AND 0xF800 \<noteq> 0x4800 \<and>
   candidate_adds firmware_read_then_write 4 = [] \<and>
   halfword firmware_read_then_write 2 AND 0xF800 = 0x4800 \<and>
   from_bytes_little (slice firmware_read_then_write (2 - 2) 2) AND 0xE000 \<noteq> 0xE000 \<and>
   Inr (candidate_adds firmware_read_then_write 2) =
     forward_scan firmware_read_then_write 0 0x40000000 4 [3] \<and>
   halfword firmware_load_after_wide_prefix 2 AND 0xF800 = 0x4800 \<and>
   wide_prefix (from_bytes_little (slice firmware_load_after_wide_prefix (2 - 2) 2)) \<and>
   candidate_adds firmware_load_after_wide_prefix 2 = []"
proof -
  have h4: "halfword firmware_read_then_write 4 AND 0xF800 \<noteq> 0x4800"
    by (simp add: halfword_def slice_def firmware_read_then_write_def)
  have h2: "halfword firmware_read_then_write 2 = 0x4B01"
    by (simp add: halfword_def slice_def firmware_read_then_write_def)
  have p2: "from_bytes_little (slice firmware_read_then_write 0 2) = 0"
    by (simp add: slice_def firmware_read_then_write_def)
  have d2: "literal_data firmware_read_then_write 2 0x4B01 = 0x40000000"
    by (simp add: literal_data_def data_offset_def slice_def firmware_read_then_write_def)
  have w2: "halfword firmware_load_after_wide_prefix 2 = 0x4B01"
    by (simp add: halfword_def slice_def firmware_load_after_wide_prefix_def)
  have wp: "from_bytes_little (slice firmware_load_after_wide_prefix 0 2) = 0xF000"
    by (simp add: slice_def firmware_load_after_wide_prefix_def)
  have wide: "wide_prefix 0xF000"
    by (simp add: wide_prefix_def)
  show ?thesis
    using outer_scan_visits_even_offsets_from_two [of firmware_read_then_write 4]
          outer_scan_visits_even_offsets_from_two [of firmware_read_then_write 2]
          outer_scan_visits_even_offsets_from_two [of firmware_load_after_wide_prefix 2] h4 wide
    by (simp add: h2 p2 d2 w2 wp)
qed

text \<open>
  The test of line 35 also rejects a load that follows a 16-bit instruction whose bits
  15 to 13 are set, such as the branch \<^verbatim>\<open>b .\<close>: nothing is recorded for the image below.
\<close>

lemma load_after_branch_is_skipped:
  "halfword firmware_load_after_branch 0 = 0xE7FE \<and>
   \<not> wide_prefix (halfword firmware_load_after_branch 0) \<and>
   halfword firmware_load_after_branch 2 AND 0xF800 = 0x4800 \<and>
   scan_candidate firmware_load_after_branch 2 = Inr [] \<and>
   find_used_registers firmware_load_after_branch = Inr {}"
proof -
  have h0: "halfword firmware_load_after_branch 0 = 0xE7FE"
    by (simp add: firmware_load_after_branch_def halfword_def slice_def)
  have "outer_scan firmware_load_after_branch 2 = Inr []"
    by code_simp
  moreover have "scan_candidate firmware_load_after_branch 2 = Inr []"
    by code_simp
  moreover have "halfword firmware_load_after_branch 2 AND 0xF800 = 0x4800"
    by (simp add: firmware_load_after_branch_def halfword_def slice_def)
  ultimately show ?thesis
    by (simp add: find_used_registers_def h0 wide_prefix_def)
qed

text \<open>
  C9 as stated fails at offset 0: the image below has a PC-relative load at offset 0, not
  preceded by anything, whose forward scan would record a read of \<^verbatim>\<open>0x40000000\<close>, and
  \<^verbatim>\<open>find_used_registers\<close> returns the empty set.
\<close>

theorem load_at_offset_zero_is_skipped:
  "even (0::nat) \<and> 0 + 2 \<le> length firmware_load_at_zero \<and>
   halfword firmware_load_at_zero 0 AND 0xF800 = 0x4800 \<and>
   from_bytes_little (slice firmware_load_at_zero (0 - 2) 0) AND 0xE000 \<noteq> 0xE000 \<and>
   scan_candidate firmware_load_at_zero 0 = Inr [(0x40000000, ''read'')] \<and>
   find_used_registers firmware_load_at_zero = Inr {}"
proof -
  have "scan_candidate firmware_load_at_zero 0 = Inr [(0x40000000, ''read'')]"
    by code_simp
  moreover have "outer_scan firmware_load_at_zero 2 = Inr []"
    by code_simp
  ultimately show ?thesis
    by (simp add: find_used_registers_def halfword_def slice_def firmware_load_at_zero_def)
qed

subsection \<open>Registers that stop being tracked\<close>

lemma remove_step_result:
  "remove_step r rs = Next (if r \<in> set rs then remove1 r rs else rs) []"
  by (simp add: remove_step_def list_remove_def)

lemma access_step_result:
  "access_step addr rs access = Next rs (if in_peripheral_window addr then [(addr, access)] else [])"
  by (simp add: access_step_def)

lemma scan_instr_shrinks:
  assumes "scan_instr data instr2 rs = Next rs' adds"
  shows "rs' = rs \<or> (\<exists>r \<in> set rs. rs' = remove1 r rs)"
  using assms unfolding scan_instr_def Let_def remove_step_result access_step_result
  by (auto split: if_splits)

lemma scan_instr_subset:
  assumes "scan_instr data instr2 rs = Next rs' adds"
  shows "set rs' \<subseteq> set rs \<and> (distinct rs \<longrightarrow> distinct rs')"
  using scan_instr_shrinks [OF assms] set_remove1_subset by fastforce

lemma scan_instr_adds_base:
  assumes "adds_of (scan_instr data instr2 rs) \<noteq> []"
  shows "drop_bit 3 instr2 AND 0x07 \<in> set rs"
  using assms unfolding scan_instr_def Let_def remove_step_result access_step_result
  by (auto split: if_splits)

lemma subtract_mask: "(x::int) AND 0xFE00 = 0x1A00 \<Longrightarrow> x AND 0xF800 = 0x1800"
proof -
  assume a: "x AND 0xFE00 = 0x1A00"
  have "x AND 0xF800 = x AND (0xFE00 AND 0xF800)" by simp
  also have "\<dots> = (x AND 0xFE00) AND 0xF800" by (simp only: and.assoc)
  also have "\<dots> = 0x1800" unfolding a by simp
  finally show ?thesis .
qed

lemma scan_instr_redefines:
  assumes "distinct rs" "r \<in> set rs" "redefines instr2 rs r"
  shows "scan_instr data instr2 rs = Next (remove1 r rs) []"
proof -
  from assms(3) consider
      (ldr_pc) "instr2 AND 0xF800 = 0x4800" "drop_bit 8 instr2 AND 0x07 = r"
    | (movs) "instr2 AND 0xF800 = 0x2000" "drop_bit 8 instr2 AND 0x07 = r"
    | (subs) "instr2 AND 0xFE00 = 0x1A00" "instr2 AND 0x07 = r"
    | (ldr) "instr2 AND 0xF800 = 0x6800" "instr2 AND 0x07 = r"
        "drop_bit 3 instr2 AND 0x07 \<notin> set rs"
    unfolding redefines_def by blast
  then show ?thesis
  proof cases
    case ldr_pc
    then show ?thesis
      unfolding scan_instr_def Let_def remove_step_result using assms(2) by simp
  next
    case movs
    have "instr2 AND 0xFE00 \<noteq> 0x1A00"
      using subtract_mask [of instr2] movs(1) by auto
    with movs show ?thesis
      unfolding scan_instr_def Let_def remove_step_result using assms(2) by simp
  next
    case subs
    from subtract_mask [OF subs(1)] subs show ?thesis
      unfolding scan_instr_def Let_def remove_step_result using assms(2) by simp
  next
    case ldr
    then show ?thesis
      unfolding scan_instr_def Let_def remove_step_result using assms(2) by simp
  qed
qed

lemma forward_states_shrink:
  "distinct rs \<Longrightarrow> (off', rs') \<in> set (forward_states firmware prev_instr data fw_offset2 rs) \<Longrightarrow>
   set rs' \<subseteq> set rs \<and> distinct rs'"
proof (induction firmware prev_instr data fw_offset2 rs rule: forward_states.induct)
  case (1 firmware prev_instr data fw_offset2 rs)
  from "1.prems"(2) have guards: "\<not> length firmware \<le> fw_offset2" "rs \<noteq> []"
    "prev_instr AND 0xE000 \<noteq> 0xE000"
    by (subst (asm) forward_states.simps, auto split: if_splits)+
  show ?case
  proof (cases "scan_instr data (halfword firmware fw_offset2) rs")
    case (Next rs1 adds)
    from "1.prems"(2) guards Next
    consider "(off', rs') = (fw_offset2, rs)"
      | "(off', rs') \<in> set (forward_states firmware prev_instr data (fw_offset2 + 2) rs1)"
      by (subst (asm) forward_states.simps) auto
    then show ?thesis
    proof cases
      case 1
      with "1.prems"(1) show ?thesis by simp
    next
      case 2
      from scan_instr_subset [OF Next] "1.prems"(1) have s: "set rs1 \<subseteq> set rs" "distinct rs1"
        by simp_all
      from "1.IH" [OF guards(1) guards(2) guards(3) Next s(2) 2] s(1) show ?thesis by auto
    qed
  next
    case (Raise e)
    with "1.prems" guards show ?thesis
      by (subst (asm) forward_states.simps) auto
  next
    case Break
    with "1.prems" guards show ?thesis
      by (subst (asm) forward_states.simps) auto
  qed
qed

lemma forward_states_suffix:
  "i < length (forward_states firmware prev_instr data fw_offset2 rs) \<Longrightarrow>
   forward_states firmware prev_instr data fw_offset2 rs ! i = (off_i, rs_i) \<Longrightarrow>
   drop i (forward_states firmware prev_instr data fw_offset2 rs) =
     forward_states firmware prev_instr data off_i rs_i"
proof (induction firmware prev_instr data fw_offset2 rs arbitrary: i
    rule: forward_states.induct)
  case (1 firmware prev_instr data fw_offset2 rs)
  let ?tail = "case scan_instr data (halfword firmware fw_offset2) rs of
           Raise e \<Rightarrow> []
         | Break \<Rightarrow> []
         | Next rs1 adds \<Rightarrow> forward_states firmware prev_instr data (fw_offset2 + 2) rs1"
  from "1.prems"(1) have guards: "\<not> length firmware \<le> fw_offset2" "rs \<noteq> []"
    "prev_instr AND 0xE000 \<noteq> 0xE000"
    by (subst (asm) forward_states.simps, auto split: if_splits)+
  then have unfold: "forward_states firmware prev_instr data fw_offset2 rs = (fw_offset2, rs) # ?tail"
    by (subst forward_states.simps) simp
  show ?case
  proof (cases i)
    case 0
    with "1.prems"(2) unfold show ?thesis by simp
  next
    case (Suc i')
    with "1.prems" unfold have len: "i' < length ?tail" and nth: "?tail ! i' = (off_i, rs_i)"
      by simp_all
    from len obtain rs1 adds where Next: "scan_instr data (halfword firmware fw_offset2) rs = Next rs1 adds"
      by (cases "scan_instr data (halfword firmware fw_offset2) rs") simp_all
    with len nth have
      "i' < length (forward_states firmware prev_instr data (fw_offset2 + 2) rs1)"
      "forward_states firmware prev_instr data (fw_offset2 + 2) rs1 ! i' = (off_i, rs_i)"
      by simp_all
    from "1.IH" [OF guards(1) guards(2) guards(3) Next this]
    show ?thesis
      unfolding unfold Suc using Next by simp
  qed
qed

lemma forward_scan_adds:
  "forward_scan firmware prev_instr data fw_offset2 rs =
     Inr (concat (map (\<lambda>(off, rs). adds_of (scan_instr data (halfword firmware off) rs))
            (forward_states firmware prev_instr data fw_offset2 rs)))"
proof (induction firmware prev_instr data fw_offset2 rs rule: forward_scan.induct)
  case (1 firmware prev_instr data fw_offset2 rs)
  show ?case
  proof (cases "length firmware \<le> fw_offset2 \<or> rs = [] \<or> prev_instr AND 0xE000 = 0xE000")
    case True
    then show ?thesis
      by (subst forward_scan.simps, subst forward_states.simps) auto
  next
    case False
    show ?thesis
    proof (cases "scan_instr data (halfword firmware fw_offset2) rs")
      case (Raise e)
      then show ?thesis by (simp add: scan_instr_no_raise)
    next
      case Break
      with False show ?thesis
        by (subst forward_scan.simps, subst forward_states.simps) simp
    next
      case (Next rs1 adds)
      from False 1 [OF _ _ _ Next] have
        "forward_scan firmware prev_instr data (fw_offset2 + 2) rs1 =
          Inr (concat (map (\<lambda>(off, rs). adds_of (scan_instr data (halfword firmware off) rs))
            (forward_states firmware prev_instr data (fw_offset2 + 2) rs1)))"
        by simp
      with False Next show ?thesis
        by (subst forward_scan.simps, subst forward_states.simps) simp
    qed
  qed
qed

lemma forward_states_mono:
  assumes dist: "distinct rs0"
    and le: "a \<le> b" and len: "b < length (forward_states firmware prev_instr data fw_offset2 rs0)"
  shows "set (snd (forward_states firmware prev_instr data fw_offset2 rs0 ! b)) \<subseteq>
         set (snd (forward_states firmware prev_instr data fw_offset2 rs0 ! a)) \<and>
         distinct (snd (forward_states firmware prev_instr data fw_offset2 rs0 ! a))"
proof -
  let ?states = "forward_states firmware prev_instr data fw_offset2 rs0"
  obtain off_a rs_a where sa: "?states ! a = (off_a, rs_a)" by (cases "?states ! a")
  obtain off_b rs_b where sb: "?states ! b = (off_b, rs_b)" by (cases "?states ! b")
  from le len have a_len: "a < length ?states" by simp
  then have "(off_a, rs_a) \<in> set ?states"
    using sa by (auto simp: in_set_conv_nth)
  with dist have dist_a: "distinct rs_a"
    using forward_states_shrink by blast
  have suffix: "drop a ?states = forward_states firmware prev_instr data off_a rs_a"
    using a_len sa by (rule forward_states_suffix)
  have "drop a ?states ! (b - a) = ?states ! b"
    using le len by simp
  moreover have "b - a < length (drop a ?states)"
    using le len by simp
  ultimately have "(off_b, rs_b) \<in> set (drop a ?states)"
    using sb by (metis nth_mem)
  then have "(off_b, rs_b) \<in> set (forward_states firmware prev_instr data off_a rs_a)"
    unfolding suffix .
  with dist_a have "set rs_b \<subseteq> set rs_a"
    using forward_states_shrink by blast
  with dist_a show ?thesis
    unfolding sa sb by simp
qed

lemma forward_states_after_Next:
  assumes "forward_states firmware prev_instr data fw_offset2 rs \<noteq> []"
    and "scan_instr data (halfword firmware fw_offset2) rs = Next rs1 adds"
  shows "forward_states firmware prev_instr data fw_offset2 rs =
           (fw_offset2, rs) # forward_states firmware prev_instr data (fw_offset2 + 2) rs1"
proof -
  from assms(1) have guards: "\<not> length firmware \<le> fw_offset2" "rs \<noteq> []"
    "prev_instr AND 0xE000 \<noteq> 0xE000"
    by (subst (asm) forward_states.simps, auto split: if_splits)+
  with assms(2) show ?thesis
    by (subst forward_states.simps) simp
qed

lemma forward_states_empty_tracked: "forward_states firmware prev_instr data fw_offset2 [] = []"
  by (subst forward_states.simps) simp


lemma concat_split_at:
  assumes "i < length xs" "f (xs ! i) = []"
  shows "concat (map f xs) = concat (map f (take i xs)) @ concat (map f (drop (Suc i) xs))"
proof -
  have "xs = take i xs @ xs ! i # drop (Suc i) xs"
    using assms(1) by (rule id_take_nth_drop)
  then have "concat (map f xs) = concat (map f (take i xs @ xs ! i # drop (Suc i) xs))"
    by simp
  also have "\<dots> = concat (map f (take i xs)) @ concat (map f (drop (Suc i) xs))"
    using assms(2) by simp
  finally show ?thesis .
qed

lemma subtract_immediate_mask: "(x::int) AND 0xFE00 = 0x1E00 \<Longrightarrow> x AND 0xF800 = 0x1800"
proof -
  assume a: "x AND 0xFE00 = 0x1E00"
  have "x AND 0xF800 = x AND (0xFE00 AND 0xF800)" by simp
  also have "\<dots> = (x AND 0xFE00) AND 0xF800" by (simp only: and.assoc)
  also have "\<dots> = 0x1800" unfolding a by simp
  finally show ?thesis .
qed

lemma subtract_immediate_breaks:
  assumes "subtract_immediate instr2 r"
  shows "scan_instr data instr2 rs = Break"
proof -
  from assms consider
      (imm3) "instr2 AND 0xFE00 = 0x1E00"
    | (imm8) "instr2 AND 0xF800 = 0x3800"
    unfolding subtract_immediate_def by blast
  then show ?thesis
  proof cases
    case imm3
    from subtract_immediate_mask [OF imm3] imm3 show ?thesis
      unfolding scan_instr_def Let_def by simp
  next
    case imm8
    have "instr2 AND 0xFE00 \<noteq> 0x1A00"
      using subtract_mask [of instr2] imm8 by auto
    with imm8 show ?thesis
      unfolding scan_instr_def Let_def by simp
  qed
qed

text \<open>
  C7, as amended. In a forward scan started with distinct tracked registers (the source
  starts with the single register \<^verbatim>\<open>rd\<close>), the tracked set at a later iteration is a
  subset of the tracked set at an earlier one. When the instruction of iteration \<open>i\<close> is
  decoded as a redefinition of a tracked register \<open>r\<close> (a PC-relative load, a move of an
  immediate or the register subtraction of line 104 with destination \<open>r\<close>, or a word load
  with destination \<open>r\<close> whose base register is not tracked), the iteration removes \<open>r\<close>
  and records nothing; the rest of the scan is the scan from the next offset without
  \<open>r\<close>, no later tracked set contains \<open>r\<close>, and every later iteration that records a pair
  does so through a tracked base register other than \<open>r\<close>. The pairs the scan records are
  those of the iterations before \<open>i\<close> followed by those of the iterations after it, and
  when \<open>r\<close> was the only tracked register the scan records nothing after iteration \<open>i\<close>.
  A subtraction of an immediate is not decoded as a redefinition: it ends the scan.
\<close>

theorem redefined_register_stops_contributing:
  assumes dist: "distinct rs0"
  shows
    "(a \<le> b \<and> b < length (forward_states firmware prev_instr data fw_offset2 rs0) \<longrightarrow>
        set (snd (forward_states firmware prev_instr data fw_offset2 rs0 ! b)) \<subseteq>
        set (snd (forward_states firmware prev_instr data fw_offset2 rs0 ! a))) \<and>
     (i < length (forward_states firmware prev_instr data fw_offset2 rs0) \<and>
      forward_states firmware prev_instr data fw_offset2 rs0 ! i = (off_i, rs_i) \<and>
      r \<in> set rs_i \<and> redefines (halfword firmware off_i) rs_i r \<longrightarrow>
        scan_instr data (halfword firmware off_i) rs_i = Next (remove1 r rs_i) [] \<and>
        r \<notin> set (remove1 r rs_i) \<and>
        drop (Suc i) (forward_states firmware prev_instr data fw_offset2 rs0) =
          forward_states firmware prev_instr data (off_i + 2) (remove1 r rs_i) \<and>
        (\<forall>(off_j, rs_j) \<in> set (drop (Suc i) (forward_states firmware prev_instr data fw_offset2 rs0)).
           set rs_j \<subseteq> set (remove1 r rs_i) \<and>
           (iteration_adds firmware data (off_j, rs_j) \<noteq> [] \<longrightarrow>
              drop_bit 3 (halfword firmware off_j) AND 0x07 \<in> set rs_j - {r})) \<and>
        forward_scan firmware prev_instr data fw_offset2 rs0 =
          Inr (concat (map (iteration_adds firmware data)
                 (take i (forward_states firmware prev_instr data fw_offset2 rs0))) @
               concat (map (iteration_adds firmware data)
                 (drop (Suc i) (forward_states firmware prev_instr data fw_offset2 rs0)))) \<and>
        (rs_i = [r] \<longrightarrow>
           forward_scan firmware prev_instr data fw_offset2 rs0 =
             Inr (concat (map (iteration_adds firmware data)
                    (take i (forward_states firmware prev_instr data fw_offset2 rs0)))))) \<and>
     forward_scan firmware prev_instr data fw_offset2 rs0 =
       Inr (concat (map (iteration_adds firmware data)
              (forward_states firmware prev_instr data fw_offset2 rs0))) \<and>
     (subtract_immediate instr2 r' \<longrightarrow> scan_instr data instr2 rs = Break)"
proof -
  let ?states = "forward_states firmware prev_instr data fw_offset2 rs0"
  let ?adds = "iteration_adds firmware data"
  have sub_imm: "scan_instr data instr2 rs = Break" if "subtract_immediate instr2 r'"
    using that by (rule subtract_immediate_breaks)
  have all: "forward_scan firmware prev_instr data fw_offset2 rs0 = Inr (concat (map ?adds ?states))"
    unfolding iteration_adds_def by (rule forward_scan_adds)
  have mono: "set (snd (?states ! b)) \<subseteq> set (snd (?states ! a))"
    if "a \<le> b \<and> b < length ?states"
    using forward_states_mono [OF dist, of a b firmware prev_instr data fw_offset2] that by blast
  have redef:
     "scan_instr data (halfword firmware off_i) rs_i = Next (remove1 r rs_i) [] \<and>
      r \<notin> set (remove1 r rs_i) \<and>
      drop (Suc i) ?states = forward_states firmware prev_instr data (off_i + 2) (remove1 r rs_i) \<and>
      (\<forall>(off_j, rs_j) \<in> set (drop (Suc i) ?states).
         set rs_j \<subseteq> set (remove1 r rs_i) \<and>
         (?adds (off_j, rs_j) \<noteq> [] \<longrightarrow>
            drop_bit 3 (halfword firmware off_j) AND 0x07 \<in> set rs_j - {r})) \<and>
      forward_scan firmware prev_instr data fw_offset2 rs0 =
        Inr (concat (map ?adds (take i ?states)) @ concat (map ?adds (drop (Suc i) ?states))) \<and>
      (rs_i = [r] \<longrightarrow>
         forward_scan firmware prev_instr data fw_offset2 rs0 =
           Inr (concat (map ?adds (take i ?states))))"
    if h: "i < length ?states \<and> ?states ! i = (off_i, rs_i) \<and>
        r \<in> set rs_i \<and> redefines (halfword firmware off_i) rs_i r"
  proof -
    from h have i_len: "i < length ?states" and si: "?states ! i = (off_i, rs_i)"
      and r: "r \<in> set rs_i" and re: "redefines (halfword firmware off_i) rs_i r"
      by simp_all
    have "distinct (snd (?states ! i))"
      using forward_states_mono [OF dist, of i i firmware prev_instr data fw_offset2] i_len by simp
    then have dist_i: "distinct rs_i"
      unfolding si by simp
    have removed: "scan_instr data (halfword firmware off_i) rs_i = Next (remove1 r rs_i) []"
      using dist_i r re by (rule scan_instr_redefines)
    have out: "r \<notin> set (remove1 r rs_i)"
      using dist_i by simp
    have dist_rest: "distinct (remove1 r rs_i)"
      using dist_i by simp
    have suffix: "drop i ?states = forward_states firmware prev_instr data off_i rs_i"
      using i_len si by (rule forward_states_suffix)
    have "drop i ?states \<noteq> []"
      using i_len by simp
    then have ne: "forward_states firmware prev_instr data off_i rs_i \<noteq> []"
      unfolding suffix .
    have "drop (Suc i) ?states = tl (drop i ?states)"
      by (simp add: drop_Suc tl_drop)
    also have "\<dots> = forward_states firmware prev_instr data (off_i + 2) (remove1 r rs_i)"
      unfolding suffix forward_states_after_Next [OF ne removed] by simp
    finally have rest: "drop (Suc i) ?states =
        forward_states firmware prev_instr data (off_i + 2) (remove1 r rs_i)" .
    have later: "\<forall>(off_j, rs_j) \<in> set (drop (Suc i) ?states).
         set rs_j \<subseteq> set (remove1 r rs_i) \<and>
         (?adds (off_j, rs_j) \<noteq> [] \<longrightarrow>
            drop_bit 3 (halfword firmware off_j) AND 0x07 \<in> set rs_j - {r})"
    proof (intro ballI)
      fix p assume p: "p \<in> set (drop (Suc i) ?states)"
      obtain off_j rs_j where pj: "p = (off_j, rs_j)" by (cases p)
      from p have "(off_j, rs_j) \<in> set (forward_states firmware prev_instr data (off_i + 2) (remove1 r rs_i))"
        unfolding rest pj .
      with dist_rest have sub: "set rs_j \<subseteq> set (remove1 r rs_i)"
        using forward_states_shrink by blast
      with out have rj: "r \<notin> set rs_j" by blast
      have base: "?adds (off_j, rs_j) \<noteq> [] \<longrightarrow>
            drop_bit 3 (halfword firmware off_j) AND 0x07 \<in> set rs_j - {r}"
        unfolding iteration_adds_def
        using scan_instr_adds_base [of data "halfword firmware off_j" rs_j] rj by auto
      show "case p of (off_j, rs_j) \<Rightarrow>
         set rs_j \<subseteq> set (remove1 r rs_i) \<and>
         (?adds (off_j, rs_j) \<noteq> [] \<longrightarrow>
            drop_bit 3 (halfword firmware off_j) AND 0x07 \<in> set rs_j - {r})"
        unfolding pj using sub base by simp
    qed
    have "?adds (?states ! i) = []"
      unfolding si iteration_adds_def using removed by simp
    from concat_split_at [of i ?states ?adds, OF i_len this] all
    have split: "forward_scan firmware prev_instr data fw_offset2 rs0 =
        Inr (concat (map ?adds (take i ?states)) @ concat (map ?adds (drop (Suc i) ?states)))"
      by simp
    have single: "forward_scan firmware prev_instr data fw_offset2 rs0 =
           Inr (concat (map ?adds (take i ?states)))"
      if "rs_i = [r]"
    proof -
      from that have "drop (Suc i) ?states = []"
        unfolding rest by (simp add: forward_states_empty_tracked)
      with split show ?thesis by simp
    qed
    from removed out rest later split single show ?thesis by blast
  qed
  from all mono redef sub_imm show ?thesis by blast
qed

lemma load_move_store_states:
  "forward_states firmware_load_move_store 0 0x40000000 4 [3] = [(4, [3]), (6, [3])]"
  by (simp add: forward_states.simps firmware_load_move_store_def halfword_def slice_def
      scan_instr_def remove_step_result access_step_result in_peripheral_window_def)

theorem redefined_register_stops_contributing_witness:
  "distinct [3 :: int] \<and>
   scan_candidate firmware_load_move_store 2 =
     forward_scan firmware_load_move_store 0 0x40000000 4 [3] \<and>
   forward_states firmware_load_move_store 0 0x40000000 4 [3] = [(4, [3]), (6, [3])] \<and>
   redefines (halfword firmware_load_move_store 6) [3] 3 \<and>
   scan_instr 0x40000000 (halfword firmware_load_move_store 6) [3] = Next [] [] \<and>
   drop 2 (forward_states firmware_load_move_store 0 0x40000000 4 [3]) = [] \<and>
   halfword firmware_load_move_store 8 = 0x6058 \<and>
   forward_scan firmware_load_move_store 0 0x40000000 4 [3] = Inr [(0x40000000, ''read'')] \<and>
   subtract_immediate 0x3B01 3 \<and> scan_instr 0x40000000 0x3B01 [3] = Break"
proof -
  have d: "distinct [3 :: int]" by simp
  have si: "subtract_immediate 0x3B01 3"
    by (simp add: subtract_immediate_def)
  have h2: "halfword firmware_load_move_store 2 = 0x4B02"
    by (simp add: firmware_load_move_store_def halfword_def slice_def)
  have p2: "from_bytes_little (slice firmware_load_move_store 0 2) = 0"
    by (simp add: firmware_load_move_store_def slice_def)
  have d2: "literal_data firmware_load_move_store 2 0x4B02 = 0x40000000"
    by (simp add: literal_data_def data_offset_def slice_def firmware_load_move_store_def)
  have cand: "scan_candidate firmware_load_move_store 2 =
     forward_scan firmware_load_move_store 0 0x40000000 4 [3]"
    by (simp add: scan_candidate_def Let_def h2 p2 d2)
  have h4: "halfword firmware_load_move_store 4 = 0x6818"
    by (simp add: firmware_load_move_store_def halfword_def slice_def)
  have h6: "halfword firmware_load_move_store 6 = 0x2300"
    by (simp add: firmware_load_move_store_def halfword_def slice_def)
  have h8: "halfword firmware_load_move_store 8 = 0x6058"
    by (simp add: firmware_load_move_store_def halfword_def slice_def)
  have re: "redefines (halfword firmware_load_move_store 6) [3] 3"
    by (simp add: h6 redefines_def)
  have a4: "iteration_adds firmware_load_move_store 0x40000000 (4, [3]) = [(0x40000000, ''read'')]"
    by (simp add: iteration_adds_def h4 scan_instr_def access_step_result in_peripheral_window_def)
  from redefined_register_stops_contributing
         [OF d, of 0 1 firmware_load_move_store 0 "0x40000000" 4 1 6 "[3]" 3 "0x3B01" 3 "[3]"] re si
  show ?thesis
    using cand h8 by (simp add: load_move_store_states a4)
qed

text \<open>
  C7 as stated fails for a subtraction of an immediate: \<^verbatim>\<open>subs r3, #1\<close> on the tracked
  register 3 is not decoded as a redefinition; the iteration reaches the final
  \<^verbatim>\<open>else\<close> and the scan ends with register 3 still in the tracked list. The same holds
  for \<^verbatim>\<open>subs r3, r3, #1\<close> (\<^verbatim>\<open>0x1E5B\<close>).
\<close>

theorem subtract_immediate_ends_the_scan_without_removal:
  "subtract_immediate (halfword firmware_load_subtract 4) 3 \<and>
   \<not> redefines (halfword firmware_load_subtract 4) [3] 3 \<and>
   scan_candidate firmware_load_subtract 2 =
     forward_scan firmware_load_subtract 0 0x40000000 4 [3] \<and>
   forward_states firmware_load_subtract 0 0x40000000 4 [3] = [(4, [3])] \<and>
   scan_instr 0x40000000 (halfword firmware_load_subtract 4) [3] = Break \<and>
   subtract_immediate 0x1E5B 3 \<and> scan_instr 0x40000000 0x1E5B [3] = Break"
proof -
  have h2: "halfword firmware_load_subtract 2 = 0x4B02"
    by (simp add: firmware_load_subtract_def halfword_def slice_def)
  have p2: "from_bytes_little (slice firmware_load_subtract 0 2) = 0"
    by (simp add: firmware_load_subtract_def slice_def)
  have d2: "literal_data firmware_load_subtract 2 0x4B02 = 0x40000000"
    by (simp add: literal_data_def data_offset_def slice_def firmware_load_subtract_def)
  have cand: "scan_candidate firmware_load_subtract 2 =
     forward_scan firmware_load_subtract 0 0x40000000 4 [3]"
    by (simp add: scan_candidate_def Let_def h2 p2 d2)
  have h4: "halfword firmware_load_subtract 4 = 0x3B01"
    by (simp add: firmware_load_subtract_def halfword_def slice_def)
  have b1: "scan_instr 0x40000000 0x3B01 [3] = Break"
    by (simp add: scan_instr_def)
  have b2: "scan_instr 0x40000000 0x1E5B [3] = Break"
    by (simp add: scan_instr_def)
  have len: "length firmware_load_subtract = 16"
    by (simp add: firmware_load_subtract_def)
  have st: "forward_states firmware_load_subtract 0 0x40000000 4 [3] = [(4, [3])]"
    by (subst forward_states.simps) (simp add: h4 b1 len)
  show ?thesis
    using cand st by (simp add: h4 b1 b2 subtract_immediate_def redefines_def)
qed

section \<open>Properties of the matcher\<close>

subsection \<open>Dictionaries and the store\<close>

lemma update_refs: "snd ` set (AList.update k v d) \<subseteq> insert v (snd ` set d)"
  by (induction d) auto

lemma dict_of_rows_props:
  assumes "dict_of_rows h d rows access = (h', d')" "valid_dict h d"
  shows "fresh h \<le> fresh h' \<and> (\<forall>r < fresh h. cells h' r = cells h r) \<and>
         fst ` set d' = fst ` set d \<union> fst ` set rows \<and> valid_dict h' d'"
  using assms
proof (induction h d rows access arbitrary: h' d' rule: dict_of_rows.induct)
  case (1 h d access)
  then show ?case by simp
next
  case (2 h d dev_id attr rows access)
  let ?h1 = "\<lparr>cells = (cells h)(fresh h := [attr @ [access]]), fresh = Suc (fresh h)\<rparr>"
  let ?d1 = "AList.update dev_id (fresh h) d"
  from "2.prems"(1) have run: "dict_of_rows ?h1 ?d1 rows access = (h', d')"
    by (simp add: alloc_def)
  have "\<forall>r \<in> snd ` set ?d1. r < Suc (fresh h)"
    using "2.prems"(2) update_refs [of dev_id "fresh h" d]
    by (fastforce simp: valid_dict_def less_Suc_eq)
  moreover have "distinct (map fst ?d1)"
    using "2.prems"(2) by (simp add: valid_dict_def distinct_update)
  ultimately have v1: "valid_dict ?h1 ?d1"
    by (simp add: valid_dict_def)
  have ih: "fresh ?h1 \<le> fresh h' \<and> (\<forall>r < fresh ?h1. cells h' r = cells ?h1 r) \<and>
         fst ` set d' = fst ` set ?d1 \<union> fst ` set rows \<and> valid_dict h' d'"
    using "2.IH" [OF _ _ run v1] by (simp add: alloc_def)
  then show ?case
    by (auto simp: dom_update)
qed

lemma dict_of_rows_nonempty:
  "dict_of_rows h d rows access = (h', d') \<Longrightarrow> d' = [] \<longleftrightarrow> d = [] \<and> rows = []"
proof (induction h d rows access arbitrary: h' d' rule: dict_of_rows.induct)
  case (1 h d access)
  then show ?case by auto
next
  case (2 h d dev_id attr rows access)
  then show ?case
    by (cases "alloc h [attr @ [access]]") (auto simp: alloc_def)
qed

lemma find_devices_by_register_props:
  assumes "find_devices_by_register cursor h addr access = (h1, m)"
  shows "fresh h \<le> fresh h1 \<and> (\<forall>r < fresh h. cells h1 r = cells h r) \<and>
         fst ` set m = fst ` set (select_registers cursor addr) \<and> valid_dict h1 m \<and>
         (m = [] \<longleftrightarrow> select_registers cursor addr = [])"
  using dict_of_rows_props [of h "[]" "select_registers cursor addr" access h1 m]
        dict_of_rows_nonempty [of h "[]" "select_registers cursor addr" access h1 m] assms
  by (simp add: find_devices_by_register_def valid_dict_def)

lemma map_of_key: "key \<in> fst ` set d \<Longrightarrow> \<exists>r. map_of d key = Some r"
  by (induction d) auto

lemma delete_filter: "AList.delete key d = filter (\<lambda>(k, r). k \<noteq> key) d"
  by (induction d) auto

lemma filter_delete:
  "key \<notin> D2 \<Longrightarrow>
   filter (\<lambda>(k, r). k \<notin> set ks \<or> k \<in> D2) (AList.delete key d1) =
   filter (\<lambda>(k, r). k \<notin> set (key # ks) \<or> k \<in> D2) d1"
  by (induction d1) auto

lemma filter_keep:
  "key \<in> D2 \<Longrightarrow>
   filter (\<lambda>(k, r). k \<notin> set ks \<or> k \<in> D2) d1 =
   filter (\<lambda>(k, r). k \<notin> set (key # ks) \<or> k \<in> D2) d1"
  by (induction d1) auto

lemma dom_delete: "fst ` set (AList.delete key d) = fst ` set d - {key}"
  by (induction d) auto

lemma delete_keeps_keys:
  "key \<notin> set ks \<Longrightarrow> set ks \<subseteq> fst ` set d1 \<Longrightarrow> set ks \<subseteq> fst ` set (AList.delete key d1)"
  unfolding dom_delete by blast

lemma merge_keys_dict:
  "distinct ks \<Longrightarrow> set ks \<subseteq> fst ` set d1 \<Longrightarrow>
   \<exists>h'. merge_keys h d1 d2 ks =
      Inr (h', filter (\<lambda>(k, r). k \<notin> set ks \<or> k \<in> fst ` set d2) d1) \<and> fresh h' = fresh h"
proof (induction ks arbitrary: h d1)
  case Nil
  then show ?case by simp
next
  case (Cons key ks)
  have "key \<in> fst ` set d1"
    using Cons.prems(2) by simp
  from map_of_key [OF this] obtain r1 where r1: "map_of d1 key = Some r1" ..
  have dks: "distinct ks" and notin: "key \<notin> set ks" and sub0: "set ks \<subseteq> fst ` set d1"
    using Cons.prems by simp_all
  show ?case
  proof (cases "key \<in> fst ` set d2")
    case False
    have step: "merge_keys h d1 d2 (key # ks) = merge_keys h (AList.delete key d1) d2 ks"
      using False r1 by simp
    have sub: "set ks \<subseteq> fst ` set (AList.delete key d1)"
      using notin sub0 by (rule delete_keeps_keys)
    from Cons.IH [OF dks sub, of h] obtain h' where
      run: "merge_keys h (AList.delete key d1) d2 ks =
         Inr (h', filter (\<lambda>(k, r). k \<notin> set ks \<or> k \<in> fst ` set d2) (AList.delete key d1))"
      and fr: "fresh h' = fresh h"
      by blast
    have eq: "filter (\<lambda>(k, r). k \<notin> set ks \<or> k \<in> fst ` set d2) (AList.delete key d1) =
        filter (\<lambda>(k, r). k \<notin> set (key # ks) \<or> k \<in> fst ` set d2) d1"
      using False by (rule filter_delete)
    have res: "merge_keys h d1 d2 (key # ks) =
        Inr (h', filter (\<lambda>(k, r). k \<notin> set (key # ks) \<or> k \<in> fst ` set d2) d1)"
      unfolding step run eq ..
    show ?thesis
      by (rule exI [of _ h'], rule conjI, rule res, rule fr)
  next
    case True
    from map_of_key [OF True] obtain r2 where r2: "map_of d2 key = Some r2" ..
    let ?h1 = "h\<lparr>cells := (cells h)(r1 := cells h r1 @ cells h r2)\<rparr>"
    have same: "AList.update key r1 d1 = d1"
      using r1 by (rule update_triv)
    have step: "merge_keys h d1 d2 (key # ks) = merge_keys ?h1 d1 d2 ks"
      using True r1 r2 same by simp
    from Cons.IH [OF dks sub0, of ?h1] obtain h' where
      run: "merge_keys ?h1 d1 d2 ks =
         Inr (h', filter (\<lambda>(k, r). k \<notin> set ks \<or> k \<in> fst ` set d2) d1)"
      and fr: "fresh h' = fresh ?h1"
      by blast
    have eq: "filter (\<lambda>(k, r). k \<notin> set ks \<or> k \<in> fst ` set d2) d1 =
        filter (\<lambda>(k, r). k \<notin> set (key # ks) \<or> k \<in> fst ` set d2) d1"
      using True by (rule filter_keep)
    have res: "merge_keys h d1 d2 (key # ks) =
        Inr (h', filter (\<lambda>(k, r). k \<notin> set (key # ks) \<or> k \<in> fst ` set d2) d1)"
      unfolding step run eq ..
    have fr': "fresh h' = fresh h"
      using fr by simp
    show ?thesis
      by (rule exI [of _ h'], rule conjI, rule res, rule fr')
  qed
qed

lemma merge_keys_disjoint:
  "distinct ks \<Longrightarrow> set ks \<subseteq> fst ` set d1 \<Longrightarrow> set ks \<inter> fst ` set d2 = {} \<Longrightarrow>
   \<exists>d'. merge_keys h d1 d2 ks = Inr (h, d')"
proof (induction ks arbitrary: d1)
  case Nil
  then show ?case by simp
next
  case (Cons key ks)
  have "key \<in> fst ` set d1"
    using Cons.prems(2) by simp
  from map_of_key [OF this] obtain r1 where r1: "map_of d1 key = Some r1" ..
  have dks: "distinct ks" and notin: "key \<notin> set ks" and sub0: "set ks \<subseteq> fst ` set d1"
    and out: "key \<notin> fst ` set d2" and disj: "set ks \<inter> fst ` set d2 = {}"
    using Cons.prems by auto
  have step: "merge_keys h d1 d2 (key # ks) = merge_keys h (AList.delete key d1) d2 ks"
    using out r1 by simp
  have sub: "set ks \<subseteq> fst ` set (AList.delete key d1)"
    using notin sub0 by (rule delete_keeps_keys)
  from Cons.IH [OF dks sub disj] show ?case
    unfolding step .
qed

lemma restrict_filter: "AList.restrict S d = filter (\<lambda>(k, r). k \<in> S) d"
  by (simp add: AList.restrict_eq)

lemma filter_all_keys:
  "filter (\<lambda>(k, r). k \<notin> set (map fst d) \<or> k \<in> S) d = AList.restrict S d"
  unfolding restrict_filter by (rule filter_cong) force+

lemma restrict_refs: "snd ` set (AList.restrict S d) \<subseteq> snd ` set d"
  unfolding restrict_filter by auto

lemma restrict_empty_disjoint: "AList.restrict S d = [] \<Longrightarrow> set (map fst d) \<inter> S = {}"
  unfolding restrict_filter by (auto simp: filter_empty_conv)

lemma find_devices_step_None:
  assumes "find_devices_by_register cursor h addr access = (h1, m)"
  shows "find_devices_step cursor h None (addr, access) =
           Inr (h1, if m = [] then None else Some m)"
  using assms by (simp add: find_devices_step_def dict_intersection_merge_def)

lemma find_devices_step_Some:
  assumes look: "find_devices_by_register cursor h addr access = (h1, m)"
    and valid: "valid_dict h d"
  shows "\<exists>h2. find_devices_step cursor h (Some d) (addr, access) =
           Inr (h2, Some (if AList.restrict (fst ` set m) d = [] then d
                          else AList.restrict (fst ` set m) d)) \<and>
         fresh h2 = fresh h1 \<and> (AList.restrict (fst ` set m) d = [] \<longrightarrow> h2 = h1)"
proof (cases "m = []")
  case True
  then have "AList.restrict (fst ` set m) d = []"
    by (simp add: restrict_filter)
  moreover have "find_devices_step cursor h (Some d) (addr, access) = Inr (h1, Some d)"
    using look True by (simp add: find_devices_step_def)
  ultimately show ?thesis by simp
next
  case False
  have dist: "distinct (map fst d)"
    using valid by (simp add: valid_dict_def)
  have sub: "set (map fst d) \<subseteq> fst ` set d"
    by simp
  from merge_keys_dict [OF dist sub, of h1 m] obtain h2 where
    run: "merge_keys h1 d m (map fst d) =
      Inr (h2, filter (\<lambda>(k, r). k \<notin> set (map fst d) \<or> k \<in> fst ` set m) d)"
    and fr: "fresh h2 = fresh h1"
    by blast
  have run': "dict_intersection_merge h1 (Some d) m = Inr (h2, AList.restrict (fst ` set m) d)"
    by (simp only: dict_intersection_merge_def option.case run filter_all_keys)
  have step: "find_devices_step cursor h (Some d) (addr, access) =
           Inr (h2, Some (if AList.restrict (fst ` set m) d = [] then d
                          else AList.restrict (fst ` set m) d))"
    using look False run' by (simp add: find_devices_step_def)
  have same: "h2 = h1" if "AList.restrict (fst ` set m) d = []"
  proof -
    from restrict_empty_disjoint [OF that] have "set (map fst d) \<inter> fst ` set m = {}" .
    from merge_keys_disjoint [OF dist sub this, of h1] obtain d' where
      "merge_keys h1 d m (map fst d) = Inr (h1, d')" ..
    with run show ?thesis by simp
  qed
  show ?thesis
    using step fr same by (intro exI [of _ h2]) simp
qed

lemma contents_cong:
  "\<forall>r \<in> snd ` set d. cells h' r = cells h r \<Longrightarrow> contents h' d = contents h d"
  by (auto simp: contents_def)

lemma contents_after_lookup:
  assumes "find_devices_by_register cursor h addr access = (h1, m)" "valid_dict h d"
  shows "contents h1 d = contents h d"
proof (rule contents_cong, rule ballI)
  fix r assume "r \<in> snd ` set d"
  with assms(2) have "r < fresh h" unfolding valid_dict_def by blast
  with find_devices_by_register_props [OF assms(1)] show "cells h1 r = cells h r" by simp
qed

lemma valid_dict_mono: "valid_dict h d \<Longrightarrow> fresh h \<le> fresh h' \<Longrightarrow> valid_dict h' d"
  unfolding valid_dict_def by (meson less_le_trans)

lemma valid_dict_restrict:
  assumes "valid_dict h d"
  shows "valid_dict h (AList.restrict S d)"
  unfolding valid_dict_def
proof (intro conjI ballI)
  show "distinct (map fst (AList.restrict S d))"
    using assms unfolding valid_dict_def by (intro distinct_restr) blast
next
  fix r assume "r \<in> snd ` set (AList.restrict S d)"
  with restrict_refs [of S d] have "r \<in> snd ` set d" by (rule subsetD)
  with assms show "r < fresh h" unfolding valid_dict_def by blast
qed

text \<open>One step from a valid state: no exception, a valid state again.\<close>

lemma find_devices_step_valid:
  assumes "valid_state h matchs"
  shows "\<exists>h' matchs'. find_devices_step cursor h matchs (addr, access) = Inr (h', matchs') \<and>
           valid_state h' matchs'"
proof -
  obtain h1 m where look: "find_devices_by_register cursor h addr access = (h1, m)"
    by (cases "find_devices_by_register cursor h addr access")
  note props = find_devices_by_register_props [OF look]
  show ?thesis
  proof (cases matchs)
    case None
    show ?thesis
      using find_devices_step_None [OF look] props None
      by (simp add: valid_state_def)
  next
    case (Some d)
    with assms have valid: "valid_dict h d" by (simp add: valid_state_def)
    from find_devices_step_Some [OF look valid] obtain h2 where
      step: "find_devices_step cursor h (Some d) (addr, access) =
           Inr (h2, Some (if AList.restrict (fst ` set m) d = [] then d
                          else AList.restrict (fst ` set m) d))"
      and fr: "fresh h2 = fresh h1"
      by blast
    have "valid_dict h2 d"
      using valid props fr by (intro valid_dict_mono [of h d h2]) simp_all
    then have "valid_dict h2 (if AList.restrict (fst ` set m) d = [] then d
                          else AList.restrict (fst ` set m) d)"
      by (simp add: valid_dict_restrict)
    with step Some show ?thesis
      by (simp add: valid_state_def)
  qed
qed

lemma find_devices_loop_valid:
  "valid_state h matchs \<Longrightarrow>
   \<exists>h' matchs'. find_devices_loop cursor h matchs regs = Inr (h', matchs') \<and> valid_state h' matchs'"
proof (induction regs arbitrary: h matchs)
  case Nil
  then show ?case by simp
next
  case (Cons item regs)
  obtain addr access where item: "item = (addr, access)" by (cases item)
  from find_devices_step_valid [OF Cons.prems, of cursor addr access] obtain h1 m1 where
    step: "find_devices_step cursor h matchs (addr, access) = Inr (h1, m1)"
    and v1: "valid_state h1 m1" by blast
  from Cons.IH [OF v1] show ?case
    using step item by simp
qed

lemma find_devices_loop_append:
  "find_devices_loop cursor h matchs (regs @ regs') =
     (case find_devices_loop cursor h matchs regs of
        Inl e \<Rightarrow> Inl e
      | Inr (h', matchs') \<Rightarrow> find_devices_loop cursor h' matchs' regs')"
  by (induction regs arbitrary: h matchs) (auto split: sum.splits)

lemma restrict_keys: "set (keys (AList.restrict S d)) = set (keys d) \<inter> S"
  unfolding keys_def by simp

lemma restrict_length: "length (AList.restrict S d) \<le> length d"
  unfolding restrict_filter by simp

lemma restrict_disjoint_empty: "set (keys d) \<inter> S = {} \<Longrightarrow> AList.restrict S d = []"
  unfolding restrict_filter keys_def by (force simp: filter_empty_conv)

lemma find_devices_reaches_valid:
  assumes "find_devices cursor h0 regs = Inr (h, matchs)"
  shows "valid_state h matchs"
proof -
  have "valid_state h0 None" by (simp add: valid_state_def)
  from find_devices_loop_valid [OF this, of cursor regs] assms show ?thesis
    by (auto simp: find_devices_def)
qed

subsection \<open>Narrowing, step by step\<close>

text \<open>
  C5. From any state that \<^verbatim>\<open>find_devices\<close> reaches, processing one more evidence item
  raises nothing; if the state was a dictionary, the new state is a dictionary whose keys
  are among the old ones and which is no longer. When the query finds no register for the
  item, or no device of the state is among the devices found, the state is unchanged: the
  same dictionary, holding the same lists in the store.
\<close>

theorem candidates_only_shrink_and_dropped_evidence_changes_nothing:
  assumes reach: "find_devices cursor h0 regs = Inr (h, matchs)"
  shows "\<exists>h' matchs'.
     find_devices_step cursor h matchs (addr, access) = Inr (h', matchs') \<and>
     find_devices cursor h0 (regs @ [(addr, access)]) = Inr (h', matchs') \<and>
     (\<forall>d. matchs = Some d \<longrightarrow>
        (\<exists>d'. matchs' = Some d' \<and> set (keys d') \<subseteq> set (keys d) \<and> length d' \<le> length d)) \<and>
     (select_registers cursor addr = [] \<or>
      (\<exists>d. matchs = Some d \<and> set (keys d) \<inter> fst ` set (select_registers cursor addr) = {}) \<longrightarrow>
        matchs' = matchs \<and> (\<forall>d. matchs = Some d \<longrightarrow> contents h' d = contents h d))"
proof -
  have valid: "valid_state h matchs"
    using reach by (rule find_devices_reaches_valid)
  obtain h1 m where look: "find_devices_by_register cursor h addr access = (h1, m)"
    by (cases "find_devices_by_register cursor h addr access")
  note props = find_devices_by_register_props [OF look]
  have S: "fst ` set m = fst ` set (select_registers cursor addr)"
    and empty: "m = [] \<longleftrightarrow> select_registers cursor addr = []"
    using props by simp_all
  have app: "find_devices cursor h0 (regs @ [(addr, access)]) =
      find_devices_step cursor h matchs (addr, access)"
    using reach by (simp add: find_devices_def find_devices_loop_append split: sum.splits)
  show ?thesis
  proof (cases matchs)
    case None
    have step: "find_devices_step cursor h matchs (addr, access) =
        Inr (h1, if m = [] then None else Some m)"
      using find_devices_step_None [OF look] None by simp
    show ?thesis
      unfolding app step using None empty
      by (intro exI [of _ h1] exI [of _ "if m = [] then None else Some m"]) simp
  next
    case (Some d)
    let ?R = "AList.restrict (fst ` set m) d"
    let ?d' = "if ?R = [] then d else ?R"
    from valid Some have vd: "valid_dict h d" by (simp add: valid_state_def)
    from find_devices_step_Some [OF look vd] obtain h2 where
      step: "find_devices_step cursor h (Some d) (addr, access) = Inr (h2, Some ?d')"
      and same: "?R = [] \<longrightarrow> h2 = h1"
      by blast
    have mono: "set (keys ?d') \<subseteq> set (keys d) \<and> length ?d' \<le> length d"
      by (simp add: restrict_keys restrict_length)
    have drop: "?R = []"
      if "select_registers cursor addr = [] \<or>
          set (keys d) \<inter> fst ` set (select_registers cursor addr) = {}"
    proof -
      from that have "set (keys d) \<inter> fst ` set m = {}"
        unfolding S by auto
      then show ?thesis by (rule restrict_disjoint_empty)
    qed
    have unchanged: "?d' = d \<and> contents h2 d = contents h d"
      if "select_registers cursor addr = [] \<or>
          set (keys d) \<inter> fst ` set (select_registers cursor addr) = {}"
      using drop [OF that] same contents_after_lookup [OF look vd] by simp
    show ?thesis
      unfolding app Some step using mono unchanged
      by (intro exI [of _ h2] exI [of _ "Some ?d'"]) simp
  qed
qed

lemma sdiv_32: "(32::int) sdiv 8 = 4"
  by (simp add: signed_divide_int_def)

lemma sdiv_512: "(512::int) sdiv 8 = 64"
  by (simp add: signed_divide_int_def)

lemma sr_lookup: "select_registers catalog_two_devices 0x40000004 = [(1, [''TIM'', ''SR''])]"
  by (simp add: select_registers_def catalog_two_devices_def sdiv_32)

lemma miss_lookup: "select_registers catalog_two_devices 0x50000000 = []"
  by (simp add: select_registers_def catalog_two_devices_def sdiv_32)

lemma reach_one:
  "\<exists>h. find_devices catalog_two_devices empty_heap [(0x40000004, ''write'')] = Inr (h, Some [(1, 0)])"
  by (simp add: find_devices_def find_devices_step_def find_devices_by_register_def sr_lookup
      alloc_def empty_heap_def dict_intersection_merge_def)

theorem candidates_only_shrink_and_dropped_evidence_changes_nothing_witness:
  "\<exists>h. find_devices catalog_two_devices empty_heap [(0x40000004, ''write'')] = Inr (h, Some [(1, 0)]) \<and>
     select_registers catalog_two_devices 0x50000000 = [] \<and>
     (\<exists>h'. find_devices_step catalog_two_devices h (Some [(1, 0)]) (0x50000000, ''read'') =
             Inr (h', Some [(1, 0)]) \<and>
           find_devices catalog_two_devices empty_heap
             ([(0x40000004, ''write'')] @ [(0x50000000, ''read'')]) = Inr (h', Some [(1, 0)]) \<and>
           contents h' [(1, 0)] = contents h [(1, 0)])"
proof -
  from reach_one obtain h where
    reach: "find_devices catalog_two_devices empty_heap [(0x40000004, ''write'')] = Inr (h, Some [(1, 0)])" ..
  from candidates_only_shrink_and_dropped_evidence_changes_nothing [OF reach, of "0x50000000" "''read''"]
  have "\<exists>h'. find_devices_step catalog_two_devices h (Some [(1, 0)]) (0x50000000, ''read'') =
             Inr (h', Some [(1, 0)]) \<and>
           find_devices catalog_two_devices empty_heap
             ([(0x40000004, ''write'')] @ [(0x50000000, ''read'')]) = Inr (h', Some [(1, 0)]) \<and>
           contents h' [(1, 0)] = contents h [(1, 0)]"
    unfolding miss_lookup by auto
  with reach miss_lookup show ?thesis by blast
qed

subsection \<open>A single device covering all evidence\<close>

lemma matching_devices_iff:
  "dev \<in> matching_devices cursor addr \<longleftrightarrow>
     (\<exists>r \<in> set (register_table cursor). \<exists>p \<in> set (peripheral_table cursor).
        peripheral_id r = peripheral_ident p \<and> device_id p = dev \<and>
        register_address r \<le> addr \<and> addr < register_address r + 32 \<and>
        addr < register_address r + register_size r sdiv 8)"
  unfolding matching_devices_def select_registers_def
  by (simp add: image_iff Bex_def) blast

lemma matching_devices_covers:
  assumes "registers_fit_prefilter cursor"
  shows "dev \<in> matching_devices cursor addr \<longleftrightarrow> covers cursor dev addr"
proof
  assume "dev \<in> matching_devices cursor addr"
  then show "covers cursor dev addr"
    unfolding matching_devices_iff covers_def by blast
next
  assume "covers cursor dev addr"
  then obtain r p where rp: "r \<in> set (register_table cursor)" "p \<in> set (peripheral_table cursor)"
    "peripheral_id r = peripheral_ident p" "device_id p = dev"
    "register_address r \<le> addr" "addr < register_address r + register_size r sdiv 8"
    unfolding covers_def by blast
  from assms rp(1) have "register_size r sdiv 8 \<le> 32"
    unfolding registers_fit_prefilter_def by blast
  with rp(6) have "addr < register_address r + 32" by simp
  with rp show "dev \<in> matching_devices cursor addr"
    unfolding matching_devices_iff by blast
qed

lemma covers_all_Cons:
  "covers_all cursor dev ((addr, access) # regs) \<longleftrightarrow>
     covers cursor dev addr \<and> covers_all cursor dev regs"
  by (simp add: covers_all_def)

lemma loop_from_candidates:
  assumes fit: "registers_fit_prefilter cursor"
  shows "valid_dict h d \<Longrightarrow> dev \<in> set (keys d) \<Longrightarrow> covers_all cursor dev regs \<Longrightarrow>
    \<exists>h' d'. find_devices_loop cursor h (Some d) regs = Inr (h', Some d') \<and>
       distinct (keys d') \<and>
       set (keys d') = {k \<in> set (keys d). covers_all cursor k regs}"
proof (induction regs arbitrary: h d)
  case Nil
  then show ?case
    by (simp add: covers_all_def valid_dict_def keys_def)
next
  case (Cons item regs)
  obtain addr access where item: "item = (addr, access)" by (cases item)
  from Cons.prems(3) have cov: "covers cursor dev addr" and rest: "covers_all cursor dev regs"
    unfolding item covers_all_Cons by simp_all
  obtain h1 m where look: "find_devices_by_register cursor h addr access = (h1, m)"
    by (cases "find_devices_by_register cursor h addr access")
  note props = find_devices_by_register_props [OF look]
  have S: "fst ` set m = matching_devices cursor addr"
    using props by (simp add: matching_devices_def)
  let ?R = "AList.restrict (matching_devices cursor addr) d"
  have devR: "dev \<in> set (keys ?R)"
    using cov Cons.prems(2) matching_devices_covers [OF fit, of dev addr]
    by (simp add: restrict_keys)
  have ne: "?R \<noteq> []"
  proof
    assume "?R = []"
    with devR show False by (simp add: keys_def)
  qed
  from find_devices_step_Some [OF look Cons.prems(1)] obtain h2 where
    step: "find_devices_step cursor h (Some d) (addr, access) = Inr (h2, Some ?R)"
    and fr: "fresh h2 = fresh h1"
    unfolding S using ne by auto
  have "valid_dict h2 d"
    using Cons.prems(1) props fr by (intro valid_dict_mono [of h d h2]) simp_all
  then have vR: "valid_dict h2 ?R"
    by (rule valid_dict_restrict)
  from Cons.IH [OF vR devR rest] obtain h' d' where
    run: "find_devices_loop cursor h2 (Some ?R) regs = Inr (h', Some d')"
    and dist: "distinct (keys d')"
    and ks: "set (keys d') = {k \<in> set (keys ?R). covers_all cursor k regs}"
    by blast
  have "set (keys d') = {k \<in> set (keys d). covers_all cursor k (item # regs)}"
    unfolding ks item covers_all_Cons restrict_keys
    using matching_devices_covers [OF fit, of _ addr] by blast
  moreover have "find_devices_loop cursor h (Some d) (item # regs) = Inr (h', Some d')"
    using step run item by simp
  ultimately show ?case
    using dist by blast
qed

lemma keys_singleton:
  assumes "distinct (keys d)" "set (keys d) = {k}"
  shows "\<exists>r. d = [(k, r)]"
proof -
  from assms have "keys d = [k]"
    by (metis distinct.simps(2) distinct_singleton empty_set list.set_cases
        list.simps(15) set_ConsD singletonD distinct_length_2_or_more neq_Nil_conv insert_iff)
  then show ?thesis
    by (cases d) (auto simp: keys_def)
qed

text \<open>
  C3, as amended. For a non-empty evidence list and a catalog whose registers are at most
  32 bytes long, if exactly one device of the catalog has, for every evidence address, a
  register whose byte range contains it, \<^verbatim>\<open>find_devices\<close> returns a dictionary whose only
  key is that device.
\<close>

theorem sole_covering_device_is_the_result:
  assumes ne: "regs \<noteq> []" and fit: "registers_fit_prefilter cursor"
    and sole: "sole_covering_device cursor dev regs"
  shows "\<exists>h' r. find_devices cursor h regs = Inr (h', Some [(dev, r)])"
proof -
  from ne obtain addr access rest where regs: "regs = (addr, access) # rest"
    by (cases regs) auto
  from sole have all: "covers_all cursor dev regs"
    and uniq: "\<forall>d \<in> catalog_devices cursor. d \<noteq> dev \<longrightarrow> \<not> covers_all cursor d regs"
    unfolding sole_covering_device_def by simp_all
  from all have cov: "covers cursor dev addr" and crest: "covers_all cursor dev rest"
    unfolding regs covers_all_Cons by simp_all
  obtain h1 m where look: "find_devices_by_register cursor h addr access = (h1, m)"
    by (cases "find_devices_by_register cursor h addr access")
  note props = find_devices_by_register_props [OF look]
  have S: "set (keys m) = matching_devices cursor addr"
    using props by (simp add: matching_devices_def keys_def)
  have dev_m: "dev \<in> set (keys m)"
    unfolding S using cov matching_devices_covers [OF fit] by simp
  have m_ne: "m \<noteq> []"
  proof
    assume "m = []"
    with dev_m show False by (simp add: keys_def)
  qed
  have step: "find_devices_step cursor h None (addr, access) = Inr (h1, Some m)"
    using find_devices_step_None [OF look] m_ne by simp
  have vm: "valid_dict h1 m"
    using props by simp
  from loop_from_candidates [OF fit vm dev_m crest] obtain h' d' where
    run: "find_devices_loop cursor h1 (Some m) rest = Inr (h', Some d')"
    and dist: "distinct (keys d')"
    and ks: "set (keys d') = {k \<in> set (keys m). covers_all cursor k rest}"
    by blast
  have final: "find_devices cursor h regs = Inr (h', Some d')"
    using step run by (simp add: find_devices_def regs)
  have "set (keys d') = {dev}"
  proof (intro equalityI subsetI)
    fix k assume "k \<in> set (keys d')"
    then have km: "k \<in> matching_devices cursor addr" and kr: "covers_all cursor k rest"
      unfolding ks S by simp_all
    from km have kc: "covers cursor k addr"
      using matching_devices_covers [OF fit] by simp
    then have "k \<in> catalog_devices cursor"
      unfolding covers_def catalog_devices_def by blast
    moreover have "covers_all cursor k regs"
      unfolding regs covers_all_Cons using kc kr by simp
    ultimately have "k = dev"
      using uniq by blast
    then show "k \<in> {dev}" by simp
  next
    fix k assume "k \<in> {dev}"
    then show "k \<in> set (keys d')"
      unfolding ks using dev_m crest by simp
  qed
  from keys_singleton [OF dist this] obtain r where "d' = [(dev, r)]" ..
  with final show ?thesis by blast
qed

lemma two_devices_fit: "registers_fit_prefilter catalog_two_devices"
  by (simp add: registers_fit_prefilter_def catalog_two_devices_def sdiv_32)

lemma two_devices_sole:
  "sole_covering_device catalog_two_devices 1 [(0x40000000, ''read''), (0x40000004, ''write'')]"
  by (simp add: sole_covering_device_def catalog_devices_def covers_all_def covers_def
      catalog_two_devices_def sdiv_32)

theorem sole_covering_device_is_the_result_witness:
  "[(0x40000000, ''read''), (0x40000004, ''write'')] \<noteq> ([] :: evidence list) \<and>
   registers_fit_prefilter catalog_two_devices \<and>
   sole_covering_device catalog_two_devices 1 [(0x40000000, ''read''), (0x40000004, ''write'')] \<and>
   (\<exists>h' r. find_devices catalog_two_devices empty_heap
              [(0x40000000, ''read''), (0x40000004, ''write'')] = Inr (h', Some [(1, r)]))"
  using sole_covering_device_is_the_result [OF _ two_devices_fit two_devices_sole, of empty_heap]
        two_devices_fit two_devices_sole
  by simp

text \<open>
  C3 as stated fails for the empty evidence list: in a catalog with one device, that
  device covers every evidence pair and no other does, and \<^verbatim>\<open>find_devices\<close> returns
  \<^verbatim>\<open>None\<close>, not a dictionary holding the device.
\<close>

theorem empty_evidence_leaves_all_devices:
  "sole_covering_device catalog_one_device 1 [] \<and>
   find_devices catalog_one_device empty_heap [] = Inr (empty_heap, None) \<and>
   \<not> (\<exists>h' r. find_devices catalog_one_device empty_heap [] = Inr (h', Some [(1, r)]))"
  by (simp add: sole_covering_device_def catalog_devices_def covers_all_def
      catalog_one_device_def find_devices_def)

subsection \<open>The query and wide registers\<close>

text \<open>
  C4. The second condition of the query, marked as a performance optimisation, rejects a
  register that passes the range test: a 512-bit register at \<^verbatim>\<open>0x40000000\<close> contains
  \<^verbatim>\<open>0x40000020\<close>, and the query returns no row for that address.
\<close>

theorem prefilter_excludes_wide_register:
  "covers catalog_wide_register 1 0x40000020 \<and>
   select_registers catalog_wide_register 0x40000020 = [] \<and>
   snd (find_devices_by_register catalog_wide_register h 0x40000020 ''read'') = []"
  by (simp add: covers_def select_registers_def find_devices_by_register_def
      catalog_wide_register_def sdiv_512)

subsection \<open>No evidence matches\<close>

lemma no_match_stays_unconstrained:
  "\<forall>(addr, access) \<in> set regs. select_registers cursor addr = [] \<Longrightarrow>
   find_devices_loop cursor h None regs = Inr (h, None)"
proof (induction regs)
  case Nil
  show ?case by simp
next
  case (Cons item regs)
  obtain addr access where item: "item = (addr, access)" by (cases item)
  with Cons.prems have "select_registers cursor addr = []" by simp
  then have "find_devices_step cursor h None (addr, access) = Inr (h, None)"
    by (simp add: find_devices_step_def find_devices_by_register_def)
  with Cons show ?case by (simp add: item)
qed

text \<open>
  C2. When no evidence matches, \<^verbatim>\<open>find_devices\<close> returns \<^verbatim>\<open>None\<close>, and the main program
  then calls \<^verbatim>\<open>matchs.items()\<close> on it: the run ends with \<^verbatim>\<open>AttributeError\<close> instead of a
  report that no device was identified. This is so for the empty image with any catalog,
  and for an image with two evidence pairs and an empty catalog.
\<close>

theorem unconstrained_result_crashes_the_report:
  "find_used_registers [] = Inr {} \<and>
   find_devices cursor h [] = Inr (h, None) \<and>
   main_body (\<lambda>regs. []) cursor h name [] = Inl AttributeError \<and>
   find_used_registers firmware_read_then_write =
     Inr {(0x40000000, ''read''), (0x40000004, ''write'')} \<and>
   find_devices empty_catalog h [(0x40000000, ''read''), (0x40000004, ''write'')] = Inr (h, None) \<and>
   main_body (\<lambda>regs. [(0x40000000, ''read''), (0x40000004, ''write'')]) empty_catalog h name
     firmware_read_then_write = Inl AttributeError"
proof -
  have e: "outer_scan [] 2 = Inr []"
    by (subst outer_scan.simps) simp
  have s: "select_registers empty_catalog addr = []" for addr
    by (simp add: select_registers_def empty_catalog_def)
  have n: "find_devices empty_catalog h [(0x40000000, ''read''), (0x40000004, ''write'')] = Inr (h, None)"
    unfolding find_devices_def by (rule no_match_stays_unconstrained) (simp add: s)
  have f: "find_used_registers firmware_read_then_write =
     Inr {(0x40000000, ''read''), (0x40000004, ''write'')}"
    by (simp add: find_used_registers_def adds_read_then_write)
  have m: "main_body (\<lambda>regs. [(0x40000000, ''read''), (0x40000004, ''write'')]) empty_catalog h name
     firmware_read_then_write = Inl AttributeError"
    unfolding main_body_def f using n by simp
  show ?thesis
    using n f m by (simp add: find_used_registers_def e main_body_def find_devices_def)
qed

end
